theory Spec2Isabelle
  imports Main "HOL-Library.Word"
begin

unbundle bit_operations_syntax

section \<open>Data model\<close>

text \<open>
  The multi-precision integer of the source is the struct \<^verbatim>\<open>mbedtls_mpi { int s; size_t n;
  mbedtls_mpi_uint *p; }\<close>: a sign (1 or -1) and an array of 32-bit limbs, least
  significant first.  The limb array is a list; the field \<^verbatim>\<open>n\<close> is its length, and the
  null array of a freshly initialised integer is the empty list.  Counts of limbs and
  bits (\<^verbatim>\<open>size_t\<close>) are natural numbers: an integer never has more than
  \<^verbatim>\<open>MBEDTLS_MPI_MAX_LIMBS\<close> limbs, so sums and products of such counts do not wrap.  The
  one subtraction that can wrap, \<^verbatim>\<open>y_bits - 1\<close>, is done on 32-bit words.
\<close>

type_synonym mbedtls_mpi_uint = "32 word"
type_synonym uint64_t = "64 word"

record mbedtls_mpi =
  mpi_s :: int
  mpi_p :: "mbedtls_mpi_uint list"

datatype mpi_err =
    MBEDTLS_ERR_MPI_BAD_INPUT_DATA
  | MBEDTLS_ERR_MPI_NEGATIVE_VALUE
  | MBEDTLS_ERR_MPI_DIVISION_BY_ZERO
  | MBEDTLS_ERR_MPI_NOT_ACCEPTABLE
  | MBEDTLS_ERR_MPI_ALLOC_FAILED

text \<open>A return code: \<open>None\<close> is 0 (success), \<open>Some e\<close> the error \<open>e\<close>.\<close>

type_synonym ret_code = "mpi_err option"

text \<open>The magnitude held by a limb array, and the mathematical value of an integer.\<close>

fun limbs_val :: "mbedtls_mpi_uint list \<Rightarrow> nat" where
  "limbs_val [] = 0"
| "limbs_val (w # ws) = unat w + 2 ^ 32 * limbs_val ws"

definition mpi_val :: "mbedtls_mpi \<Rightarrow> int" where
  "mpi_val X = mpi_s X * int (limbs_val (mpi_p X))"

text \<open>The \<open>n\<close> low limbs of a natural number.\<close>

fun limbs_of_nat :: "nat \<Rightarrow> nat \<Rightarrow> mbedtls_mpi_uint list" where
  "limbs_of_nat 0 v = []"
| "limbs_of_nat (Suc n) v = of_nat (v mod 2 ^ 32) # limbs_of_nat n (v div 2 ^ 32)"

fun nat_bitlen :: "nat \<Rightarrow> nat" where
  "nat_bitlen v = (if v = 0 then 0 else Suc (nat_bitlen (v div 2)))"

section \<open>Helpers of the source\<close>

text \<open>\<^verbatim>\<open>bits_to_words\<close>: convert a bit count to a word count.\<close>

definition bits_to_words :: "nat \<Rightarrow> nat" where
  "bits_to_words bits = (bits + 31) div 32"

text \<open>
  \<^verbatim>\<open>mpi_words\<close>: the number of words actually used.  The loop runs \<open>i\<close> from \<open>n\<close> down to 1
  and returns the first \<open>i\<close> with \<open>p[i - 1] \<noteq> 0\<close>, or 0.
\<close>

fun mpi_words_loop :: "mbedtls_mpi_uint list \<Rightarrow> nat \<Rightarrow> nat" where
  "mpi_words_loop p 0 = 0"
| "mpi_words_loop p (Suc i) = (if p ! i \<noteq> 0 then Suc i else mpi_words_loop p i)"

definition mpi_words :: "mbedtls_mpi \<Rightarrow> nat" where
  "mpi_words mpi = mpi_words_loop (mpi_p mpi) (length (mpi_p mpi))"

section \<open>The integer container (external collaborator)\<close>

text \<open>
  Modelled from the spec: the general-purpose multi-precision container (init, free,
  grow, copy, compare-to-int, shift-left, add, set-bit, bit length, modular reduction)
  is not part of the sources; it is the mbed TLS bignum interface.  Each operation is
  modelled by its documented contract on values.  Storage comes from an allocator that
  is a parameter: \<open>can_alloc k\<close> says whether a request for \<open>k\<close> limbs is granted.
\<close>

definition MBEDTLS_MPI_MAX_LIMBS :: nat where
  "MBEDTLS_MPI_MAX_LIMBS = 10000"

definition mbedtls_mpi_init :: mbedtls_mpi where
  "mbedtls_mpi_init = \<lparr>mpi_s = 1, mpi_p = []\<rparr>"

definition mbedtls_mpi_grow ::
  "(nat \<Rightarrow> bool) \<Rightarrow> mbedtls_mpi \<Rightarrow> nat \<Rightarrow> ret_code \<times> mbedtls_mpi" where
  "mbedtls_mpi_grow can_alloc X nblimbs =
     (if nblimbs > MBEDTLS_MPI_MAX_LIMBS then (Some MBEDTLS_ERR_MPI_ALLOC_FAILED, X)
      else if length (mpi_p X) < nblimbs then
        (if can_alloc nblimbs
         then (None, X\<lparr>mpi_p := mpi_p X @ replicate (nblimbs - length (mpi_p X)) 0\<rparr>)
         else (Some MBEDTLS_ERR_MPI_ALLOC_FAILED, X))
      else (None, X))"

definition mbedtls_mpi_bitlen :: "mbedtls_mpi \<Rightarrow> nat" where
  "mbedtls_mpi_bitlen X =
     (case mpi_words X of
        0 \<Rightarrow> 0
      | Suc i \<Rightarrow> i * 32 + nat_bitlen (unat (mpi_p X ! i)))"

definition mbedtls_mpi_cmp_int :: "mbedtls_mpi \<Rightarrow> int \<Rightarrow> int" where
  "mbedtls_mpi_cmp_int X z = sgn (mpi_val X - z)"

definition mbedtls_mpi_lset ::
  "(nat \<Rightarrow> bool) \<Rightarrow> mbedtls_mpi \<Rightarrow> int \<Rightarrow> ret_code \<times> mbedtls_mpi" where
  "mbedtls_mpi_lset can_alloc X z =
     (case mbedtls_mpi_grow can_alloc X 1 of
        (Some e, X') \<Rightarrow> (Some e, X')
      | (None, X') \<Rightarrow>
          (None, X'\<lparr>mpi_s := (if z < 0 then - 1 else 1),
                     mpi_p := (replicate (length (mpi_p X')) 0)[0 := word_of_int \<bar>z\<bar>]\<rparr>))"

definition mbedtls_mpi_copy ::
  "(nat \<Rightarrow> bool) \<Rightarrow> mbedtls_mpi \<Rightarrow> mbedtls_mpi \<Rightarrow> ret_code \<times> mbedtls_mpi" where
  "mbedtls_mpi_copy can_alloc X Y =
     (if mpi_p Y = [] then (None, mbedtls_mpi_init)
      else
        let i = max 1 (mpi_words Y) in
        (case mbedtls_mpi_grow can_alloc (X\<lparr>mpi_s := mpi_s Y\<rparr>) i of
           (Some e, X') \<Rightarrow> (Some e, X')
         | (None, X') \<Rightarrow>
             (None, X'\<lparr>mpi_p := take i (mpi_p Y) @ replicate (length (mpi_p X') - i) 0\<rparr>)))"

text \<open>
  Storing a sign and a magnitude into \<open>X\<close>, after growing \<open>X\<close> to \<open>need\<close> limbs: the common
  last step of the arithmetic operations below.
\<close>

definition mpi_assign ::
  "(nat \<Rightarrow> bool) \<Rightarrow> mbedtls_mpi \<Rightarrow> nat \<Rightarrow> int \<Rightarrow> nat \<Rightarrow> ret_code \<times> mbedtls_mpi" where
  "mpi_assign can_alloc X need sg v =
     (case mbedtls_mpi_grow can_alloc X need of
        (Some e, X') \<Rightarrow> (Some e, X')
      | (None, X') \<Rightarrow>
          (None, X'\<lparr>mpi_s := sg, mpi_p := limbs_of_nat (length (mpi_p X')) v\<rparr>))"

definition mbedtls_mpi_shift_l ::
  "(nat \<Rightarrow> bool) \<Rightarrow> mbedtls_mpi \<Rightarrow> nat \<Rightarrow> ret_code \<times> mbedtls_mpi" where
  "mbedtls_mpi_shift_l can_alloc X count =
     mpi_assign can_alloc X (bits_to_words (mbedtls_mpi_bitlen X + count)) (mpi_s X)
       (limbs_val (mpi_p X) * 2 ^ count)"

definition mbedtls_mpi_add_mpi ::
  "(nat \<Rightarrow> bool) \<Rightarrow> mbedtls_mpi \<Rightarrow> mbedtls_mpi \<Rightarrow> mbedtls_mpi \<Rightarrow> ret_code \<times> mbedtls_mpi" where
  "mbedtls_mpi_add_mpi can_alloc X A B =
     (let a = limbs_val (mpi_p A); b = limbs_val (mpi_p B);
          sg = (if mpi_s A * mpi_s B < 0 then (if a \<ge> b then mpi_s A else - mpi_s A)
                else mpi_s A);
          v = (if mpi_s A * mpi_s B < 0 then (if a \<ge> b then a - b else b - a) else a + b);
          need = max (max 1 (max (mpi_words A) (mpi_words B))) (bits_to_words (nat_bitlen v))
      in mpi_assign can_alloc X need sg v)"

definition mbedtls_mpi_set_bit ::
  "(nat \<Rightarrow> bool) \<Rightarrow> mbedtls_mpi \<Rightarrow> nat \<Rightarrow> nat \<Rightarrow> ret_code \<times> mbedtls_mpi" where
  "mbedtls_mpi_set_bit can_alloc X pos val =
     (let off = pos div 32; idx = pos mod 32 in
      if val \<noteq> 0 \<and> val \<noteq> 1 then (Some MBEDTLS_ERR_MPI_BAD_INPUT_DATA, X)
      else if length (mpi_p X) * 32 \<le> pos \<and> val = 0 then (None, X)
      else
        (case mbedtls_mpi_grow can_alloc X (off + 1) of
           (Some e, X') \<Rightarrow> (Some e, X')
         | (None, X') \<Rightarrow>
             (None, X'\<lparr>mpi_p := (mpi_p X')[off :=
                ((mpi_p X' ! off) AND NOT (push_bit idx 1)) OR push_bit idx (of_nat val)]\<rparr>)))"

definition mbedtls_mpi_mod_mpi ::
  "(nat \<Rightarrow> bool) \<Rightarrow> mbedtls_mpi \<Rightarrow> mbedtls_mpi \<Rightarrow> mbedtls_mpi \<Rightarrow> ret_code \<times> mbedtls_mpi" where
  "mbedtls_mpi_mod_mpi can_alloc R A B =
     (if mbedtls_mpi_cmp_int B 0 < 0 then (Some MBEDTLS_ERR_MPI_NEGATIVE_VALUE, R)
      else if mbedtls_mpi_cmp_int B 0 = 0 then (Some MBEDTLS_ERR_MPI_DIVISION_BY_ZERO, R)
      else
        let v = nat (mpi_val A mod mpi_val B) in
        mpi_assign can_alloc R (max 1 (bits_to_words (nat_bitlen v))) 1 v)"

section \<open>The accelerator\<close>

text \<open>
  The peripheral as software sees it: five operand blocks of 32-bit words and the scalar
  registers.  A block is addressed by its base and a word offset (the source adds
  \<^verbatim>\<open>i * 4\<close> bytes to a block's base address); the exact addresses belong to a header
  that is not part of the sources, so an address is a pair of a block and a word index.
  \<open>rsa_acquired\<close> counts the acquisitions of the peripheral, so that a call that never
  touches the hardware is visible as a call that leaves the whole state unchanged.
\<close>

datatype rsa_mem_block =
    RSA_MEM_M_BLOCK_BASE
  | RSA_MEM_X_BLOCK_BASE
  | RSA_MEM_Y_BLOCK_BASE
  | RSA_MEM_RB_BLOCK_BASE
  | RSA_MEM_Z_BLOCK_BASE

datatype rsa_op = RSA_MOD_MULT_START_REG | RSA_MODEXP_START_REG | RSA_MULT_START_REG

type_synonym rsa_addr = "rsa_mem_block \<times> nat"

record rsa_hw =
  rsa_mem :: "rsa_mem_block \<Rightarrow> nat \<Rightarrow> 32 word"
  RSA_LENGTH_REG :: "32 word"
  RSA_M_DASH_REG :: "32 word"
  RSA_CONSTANT_TIME_REG :: "32 word"
  RSA_SEARCH_OPEN_REG :: "32 word"
  RSA_SEARCH_POS_REG :: "32 word"
  rsa_powered :: bool
  rsa_acquired :: nat

text \<open>
  \<^verbatim>\<open>esp_mpi_acquire_hardware\<close> takes the lock, enables the clock, clears the reset and
  waits until the peripheral reports its memory clean: the blocks are then all zero (the
  source relies on this zeroing in the plain multiplication).
  \<^verbatim>\<open>esp_mpi_release_hardware\<close> powers the peripheral down and releases the lock; the
  record keeps the last contents of the blocks, which no operation reads before the next
  acquisition clears them.
\<close>

definition esp_mpi_acquire_hardware :: "rsa_hw \<Rightarrow> rsa_hw" where
  "esp_mpi_acquire_hardware hw =
     hw\<lparr>rsa_mem := (\<lambda>b i. 0), rsa_powered := True, rsa_acquired := Suc (rsa_acquired hw)\<rparr>"

definition esp_mpi_release_hardware :: "rsa_hw \<Rightarrow> rsa_hw" where
  "esp_mpi_release_hardware hw = hw\<lparr>rsa_powered := False\<rparr>"

text \<open>The peripheral before its first use: powered down, everything zero.\<close>

definition rsa_hw_init :: rsa_hw where
  "rsa_hw_init = \<lparr>rsa_mem = (\<lambda>b i. 0), RSA_LENGTH_REG = 0, RSA_M_DASH_REG = 0,
     RSA_CONSTANT_TIME_REG = 0, RSA_SEARCH_OPEN_REG = 0, RSA_SEARCH_POS_REG = 0,
     rsa_powered = False, rsa_acquired = 0\<rparr>"

definition mem_write :: "rsa_addr \<Rightarrow> nat \<Rightarrow> 32 word \<Rightarrow> rsa_hw \<Rightarrow> rsa_hw" where
  "mem_write base i w hw =
     hw\<lparr>rsa_mem := (rsa_mem hw)(fst base := (rsa_mem hw (fst base))(snd base + i := w))\<rparr>"

definition mem_read :: "rsa_hw \<Rightarrow> rsa_addr \<Rightarrow> nat \<Rightarrow> 32 word" where
  "mem_read hw base i = rsa_mem hw (fst base) (snd base + i)"

definition block_read :: "rsa_hw \<Rightarrow> rsa_addr \<Rightarrow> nat \<Rightarrow> 32 word list" where
  "block_read hw base n = map (mem_read hw base) [0..<n]"

definition block_write :: "rsa_addr \<Rightarrow> 32 word list \<Rightarrow> rsa_hw \<Rightarrow> rsa_hw" where
  "block_write base ws hw = fold (\<lambda>i. mem_write base i (ws ! i)) [0..<length ws] hw"

subsection \<open>What the three operations compute\<close>

text \<open>
  Modelled from the spec: the accelerator itself.  The plain multiplication reads \<open>X\<close> from
  the X block and \<open>Y\<close> from the upper half of the Z block and leaves the double-width
  product in the Z block; the length register holds the double width in words, minus
  one.  The modular operations are Montgomery operations at the width of the length
  register plus one: they use the modulus, the constant \<open>M'\<close> of the register and the
  block \<open>Rinv\<close> exactly as loaded, so a wrong \<open>M'\<close> or \<open>Rinv\<close> gives a wrong result.
  \<open>mont_mul\<close> is the word-serial Montgomery product \<open>A * B / R mod M\<close>, one division by
  \<open>2 ^ 32\<close> per word.  The modular multiplication is \<open>mont_mul (mont_mul X Y) Rinv\<close>.
  The modular exponentiation is square-and-multiply on Montgomery residues over the
  exponent bits from the search position down to bit 0 (from the top bit of the
  operand width when the search option is off).  The constant-time option changes no
  result.  An operation is modelled as finishing: the busy-wait of the source returns.
\<close>

definition redc_step :: "nat \<Rightarrow> nat \<Rightarrow> nat \<Rightarrow> nat" where
  "redc_step m' M T = (T + ((T mod 2 ^ 32) * m' mod 2 ^ 32) * M) div 2 ^ 32"

definition mont_mul :: "nat \<Rightarrow> nat \<Rightarrow> nat \<Rightarrow> nat \<Rightarrow> nat \<Rightarrow> nat" where
  "mont_mul n m' M A B = ((redc_step m' M ^^ n) (A * B)) mod M"

fun mont_exp_loop :: "nat \<Rightarrow> nat \<Rightarrow> nat \<Rightarrow> nat \<Rightarrow> nat \<Rightarrow> nat \<Rightarrow> nat \<Rightarrow> nat" where
  "mont_exp_loop n m' M xbar e 0 acc = acc"
| "mont_exp_loop n m' M xbar e (Suc k) acc =
     mont_exp_loop n m' M xbar e k
       (let a = mont_mul n m' M acc acc in
        if bit e k then mont_mul n m' M a xbar else a)"

definition hw_mult :: "rsa_hw \<Rightarrow> rsa_hw" where
  "hw_mult hw =
     (let n = (unat (RSA_LENGTH_REG hw) + 1) div 2;
          x = limbs_val (block_read hw (RSA_MEM_X_BLOCK_BASE, 0) n);
          y = limbs_val (block_read hw (RSA_MEM_Z_BLOCK_BASE, n) n)
      in block_write (RSA_MEM_Z_BLOCK_BASE, 0) (limbs_of_nat (2 * n) (x * y)) hw)"

definition hw_mod_mult :: "rsa_hw \<Rightarrow> rsa_hw" where
  "hw_mod_mult hw =
     (let n = unat (RSA_LENGTH_REG hw) + 1;
          m' = unat (RSA_M_DASH_REG hw);
          M = limbs_val (block_read hw (RSA_MEM_M_BLOCK_BASE, 0) n);
          rinv = limbs_val (block_read hw (RSA_MEM_RB_BLOCK_BASE, 0) n);
          x = limbs_val (block_read hw (RSA_MEM_X_BLOCK_BASE, 0) n);
          y = limbs_val (block_read hw (RSA_MEM_Y_BLOCK_BASE, 0) n);
          z = mont_mul n m' M (mont_mul n m' M x y) rinv
      in block_write (RSA_MEM_Z_BLOCK_BASE, 0) (limbs_of_nat n z) hw)"

definition hw_mod_exp :: "rsa_hw \<Rightarrow> rsa_hw" where
  "hw_mod_exp hw =
     (let n = unat (RSA_LENGTH_REG hw) + 1;
          m' = unat (RSA_M_DASH_REG hw);
          M = limbs_val (block_read hw (RSA_MEM_M_BLOCK_BASE, 0) n);
          rinv = limbs_val (block_read hw (RSA_MEM_RB_BLOCK_BASE, 0) n);
          x = limbs_val (block_read hw (RSA_MEM_X_BLOCK_BASE, 0) n);
          y = limbs_val (block_read hw (RSA_MEM_Y_BLOCK_BASE, 0) n);
          k = (if bit (RSA_SEARCH_OPEN_REG hw) 0 then unat (RSA_SEARCH_POS_REG hw) + 1
               else 32 * n);
          xbar = mont_mul n m' M x rinv;
          one = mont_mul n m' M 1 rinv;
          z = mont_mul n m' M (mont_exp_loop n m' M xbar y k one) 1
      in block_write (RSA_MEM_Z_BLOCK_BASE, 0) (limbs_of_nat n z) hw)"

text \<open>
  \<^verbatim>\<open>start_op\<close> clears the interrupt status and writes 1 to the start register of the
  operation; \<^verbatim>\<open>wait_op_complete\<close> polls until the operation is done and clears the
  interrupt.
\<close>

definition start_op :: "rsa_op \<Rightarrow> rsa_hw \<Rightarrow> rsa_hw" where
  "start_op op_reg hw =
     (case op_reg of
        RSA_MOD_MULT_START_REG \<Rightarrow> hw_mod_mult hw
      | RSA_MODEXP_START_REG \<Rightarrow> hw_mod_exp hw
      | RSA_MULT_START_REG \<Rightarrow> hw_mult hw)"

definition wait_op_complete :: "rsa_op \<Rightarrow> rsa_hw \<Rightarrow> rsa_hw" where
  "wait_op_complete op_reg hw = hw"

section \<open>Word marshalling\<close>

text \<open>
  \<^verbatim>\<open>mpi_to_mem_block\<close>: copy \<open>min num_words n\<close> limbs into the block, then zero the block up
  to \<open>num_words\<close>.
\<close>

definition mpi_to_mem_block :: "rsa_addr \<Rightarrow> mbedtls_mpi \<Rightarrow> nat \<Rightarrow> rsa_hw \<Rightarrow> rsa_hw" where
  "mpi_to_mem_block mem_base mpi num_words hw =
     (let copy_words = (if num_words < length (mpi_p mpi) then num_words
                        else length (mpi_p mpi));
          hw1 = fold (\<lambda>i. mem_write mem_base i (mpi_p mpi ! i)) [0..<copy_words] hw
      in fold (\<lambda>i. mem_write mem_base i 0) [copy_words..<num_words] hw1)"

text \<open>
  \<^verbatim>\<open>mem_block_to_mpi\<close>: grow \<open>x\<close> to \<open>num_words\<close> limbs (the only step that can fail), read
  \<open>num_words\<close> words from the block, zero the remaining limbs of \<open>x\<close>.  The sign of \<open>x\<close>
  is not written.
\<close>

definition mem_block_to_mpi ::
  "(nat \<Rightarrow> bool) \<Rightarrow> mbedtls_mpi \<Rightarrow> rsa_addr \<Rightarrow> nat \<Rightarrow> rsa_hw \<Rightarrow> ret_code \<times> mbedtls_mpi" where
  "mem_block_to_mpi can_alloc x mem_base num_words hw =
     (case mbedtls_mpi_grow can_alloc x num_words of
        (Some e, x') \<Rightarrow> (Some e, x')
      | (None, x') \<Rightarrow>
          (None, x'\<lparr>mpi_p := block_read hw mem_base num_words
                               @ replicate (length (mpi_p x') - num_words) 0\<rparr>))"

section \<open>Montgomery parameters\<close>

text \<open>
  \<^verbatim>\<open>modular_inverse\<close>: the loop of Dusse and Kaliski on 64-bit variables, for \<open>i\<close> from 2 to
  32.  The source reads \<^verbatim>\<open>M->p[0]\<close>, so \<open>M\<close> must have a limb.
\<close>

function modular_inverse_loop ::
  "nat \<Rightarrow> uint64_t \<Rightarrow> uint64_t \<Rightarrow> uint64_t \<Rightarrow> uint64_t \<Rightarrow> uint64_t" where
  "modular_inverse_loop i N t two_2_i_minus_1 two_2_i =
     (if i \<le> 32 then
        modular_inverse_loop (i + 1) N
          (if (ucast (ucast N :: mbedtls_mpi_uint) * t) mod two_2_i \<ge> two_2_i_minus_1
           then t + two_2_i_minus_1 else t)
          (push_bit 1 two_2_i_minus_1) (push_bit 1 two_2_i)
      else t)"
  by pat_completeness auto
termination
  by (relation "measure (\<lambda>(i, N, t, a, b). 33 - i)") auto

declare modular_inverse_loop.simps [simp del]

definition modular_inverse :: "mbedtls_mpi \<Rightarrow> mbedtls_mpi_uint" where
  "modular_inverse M =
     (let N = ucast (mpi_p M ! 0) :: uint64_t;
          t = modular_inverse_loop 2 N 1 2 4
      in ucast (0xFFFFFFFF - t + 1))"

text \<open>
  \<^verbatim>\<open>calculate_rinv\<close>: \<open>RR = 2 ^ (2 * num_bits)\<close> by setting one bit of a fresh integer, then
  \<open>Rinv = RR mod M\<close>.
\<close>

definition calculate_rinv ::
  "(nat \<Rightarrow> bool) \<Rightarrow> mbedtls_mpi \<Rightarrow> mbedtls_mpi \<Rightarrow> nat \<Rightarrow> ret_code \<times> mbedtls_mpi" where
  "calculate_rinv can_alloc Rinv M num_words =
     (let num_bits = num_words * 32 in
      case mbedtls_mpi_set_bit can_alloc mbedtls_mpi_init (num_bits * 2) 1 of
        (Some e, RR) \<Rightarrow> (Some e, Rinv)
      | (None, RR) \<Rightarrow> mbedtls_mpi_mod_mpi can_alloc Rinv RR M)"

section \<open>Modular multiplication and exponentiation\<close>

text \<open>
  Every exposed operation takes the allocator, the state of the accelerator and the
  result integer \<open>Z\<close> as it is on entry, and returns the return code, \<open>Z\<close> as it is on
  exit and the new state of the accelerator.  The result integer is an object of its
  own: a call in which \<open>Z\<close> is also an operand is outside this model.
\<close>

text \<open>\<^verbatim>\<open>esp_mpi_mul_mpi_mod\<close>: \<open>Z = (X * Y) mod M\<close>.\<close>

definition esp_mpi_mul_mpi_mod ::
  "(nat \<Rightarrow> bool) \<Rightarrow> rsa_hw \<Rightarrow> mbedtls_mpi \<Rightarrow> mbedtls_mpi \<Rightarrow> mbedtls_mpi \<Rightarrow> mbedtls_mpi
     \<Rightarrow> ret_code \<times> mbedtls_mpi \<times> rsa_hw" where
  "esp_mpi_mul_mpi_mod can_alloc hw Z X Y M =
     (let y_bits = mbedtls_mpi_bitlen Y;
          x_words = mpi_words X;
          y_words = mpi_words Y;
          m_words = mpi_words M;
          num_words = max (max m_words x_words) y_words
      in
      if num_words * 32 > 4096 then (Some MBEDTLS_ERR_MPI_NOT_ACCEPTABLE, Z, hw)
      else
        (case calculate_rinv can_alloc mbedtls_mpi_init M num_words of
           (Some e, Rinv) \<Rightarrow> (Some e, Z, hw)
         | (None, Rinv) \<Rightarrow>
             (let Mprime = modular_inverse M;
                  hw1 = esp_mpi_acquire_hardware hw;
                  hw2 = hw1\<lparr>RSA_LENGTH_REG := of_nat num_words - 1\<rparr>;
                  hw3 = hw2\<lparr>RSA_M_DASH_REG := Mprime\<rparr>;
                  hw4 = mpi_to_mem_block (RSA_MEM_M_BLOCK_BASE, 0) M num_words hw3;
                  hw5 = mpi_to_mem_block (RSA_MEM_RB_BLOCK_BASE, 0) Rinv num_words hw4;
                  hw6 = mpi_to_mem_block (RSA_MEM_X_BLOCK_BASE, 0) X num_words hw5;
                  hw7 = mpi_to_mem_block (RSA_MEM_Y_BLOCK_BASE, 0) Y num_words hw6;
                  hw8 = hw7\<lparr>RSA_CONSTANT_TIME_REG := 0\<rparr>;
                  hw9 = hw8\<lparr>RSA_SEARCH_OPEN_REG := 1\<rparr>;
                  hw10 = hw9\<lparr>RSA_SEARCH_POS_REG := of_nat y_bits - 1\<rparr>;
                  hw11 = start_op RSA_MOD_MULT_START_REG hw10;
                  hw12 = wait_op_complete RSA_MOD_MULT_START_REG hw11;
                  hw13 = hw12\<lparr>RSA_SEARCH_OPEN_REG := 1\<rparr>;
                  Z' = snd (mem_block_to_mpi can_alloc Z (RSA_MEM_Z_BLOCK_BASE, 0) m_words hw13);
                  hw14 = esp_mpi_release_hardware hw13
              in (None, Z', hw14))))"

text \<open>
  \<^verbatim>\<open>mbedtls_mpi_exp_mod\<close>: \<open>Z = X ^ Y mod M\<close>.  The optional cache \<^verbatim>\<open>_Rinv\<close> is \<open>None\<close> for
  the null pointer; the cache as the call leaves it is returned with the result.
\<close>

definition mbedtls_mpi_exp_mod ::
  "(nat \<Rightarrow> bool) \<Rightarrow> rsa_hw \<Rightarrow> mbedtls_mpi \<Rightarrow> mbedtls_mpi \<Rightarrow> mbedtls_mpi \<Rightarrow> mbedtls_mpi
     \<Rightarrow> mbedtls_mpi option \<Rightarrow> ret_code \<times> mbedtls_mpi \<times> mbedtls_mpi option \<times> rsa_hw" where
  "mbedtls_mpi_exp_mod can_alloc hw Z X Y M Rinv_opt =
     (let y_bits = mbedtls_mpi_bitlen Y;
          x_words = mpi_words X;
          y_words = mpi_words Y;
          m_words = mpi_words M;
          num_words = max m_words (max x_words y_words)
      in
      if mbedtls_mpi_cmp_int M 0 \<le> 0 \<or> (mpi_p M ! 0) AND 1 = 0
      then (Some MBEDTLS_ERR_MPI_BAD_INPUT_DATA, Z, Rinv_opt, hw)
      else if mbedtls_mpi_cmp_int Y 0 < 0
      then (Some MBEDTLS_ERR_MPI_BAD_INPUT_DATA, Z, Rinv_opt, hw)
      else if mbedtls_mpi_cmp_int Y 0 = 0
      then (case mbedtls_mpi_lset can_alloc Z 1 of (ret, Z') \<Rightarrow> (ret, Z', Rinv_opt, hw))
      else if num_words * 32 > 4096
      then (Some MBEDTLS_ERR_MPI_NOT_ACCEPTABLE, Z, Rinv_opt, hw)
      else
        (let Rinv0 = (case Rinv_opt of None \<Rightarrow> mbedtls_mpi_init | Some R \<Rightarrow> R);
             cached = (\<lambda>R. case Rinv_opt of None \<Rightarrow> None | Some old \<Rightarrow> Some R)
         in
         case (if mpi_p Rinv0 = [] then calculate_rinv can_alloc Rinv0 M num_words
               else (None, Rinv0)) of
           (Some e, Rinv) \<Rightarrow> (Some e, Z, cached Rinv, hw)
         | (None, Rinv) \<Rightarrow>
             (let Mprime = modular_inverse M;
                  hw1 = esp_mpi_acquire_hardware hw;
                  hw2 = hw1\<lparr>RSA_LENGTH_REG := of_nat num_words - 1\<rparr>;
                  hw3 = mpi_to_mem_block (RSA_MEM_X_BLOCK_BASE, 0) X num_words hw2;
                  hw4 = mpi_to_mem_block (RSA_MEM_Y_BLOCK_BASE, 0) Y num_words hw3;
                  hw5 = mpi_to_mem_block (RSA_MEM_M_BLOCK_BASE, 0) M num_words hw4;
                  hw6 = mpi_to_mem_block (RSA_MEM_RB_BLOCK_BASE, 0) Rinv num_words hw5;
                  hw7 = hw6\<lparr>RSA_M_DASH_REG := Mprime\<rparr>;
                  hw8 = hw7\<lparr>RSA_CONSTANT_TIME_REG := 0\<rparr>;
                  hw9 = hw8\<lparr>RSA_SEARCH_OPEN_REG := 1\<rparr>;
                  hw10 = hw9\<lparr>RSA_SEARCH_POS_REG := of_nat y_bits - 1\<rparr>;
                  hw11 = start_op RSA_MODEXP_START_REG hw10;
                  hw12 = wait_op_complete RSA_MODEXP_START_REG hw11;
                  hw13 = hw12\<lparr>RSA_SEARCH_OPEN_REG := 0\<rparr>
              in
              case mem_block_to_mpi can_alloc Z (RSA_MEM_Z_BLOCK_BASE, 0) m_words hw13 of
                (ret, Z1) \<Rightarrow>
                  (let hw14 = esp_mpi_release_hardware hw13 in
                   if mpi_s X = - 1 \<and> (mpi_p Y ! 0) AND 1 \<noteq> 0
                   then
                     (let Z2 = Z1\<lparr>mpi_s := - 1\<rparr> in
                      case mbedtls_mpi_add_mpi can_alloc Z2 M Z2 of
                        (ret', Z3) \<Rightarrow> (ret', Z3, cached Rinv, hw14))
                   else (ret, Z1\<lparr>mpi_s := 1\<rparr>, cached Rinv, hw14)))))"

section \<open>Plain multiplication\<close>

text \<open>
  \<^verbatim>\<open>mpi_mult_mpi_failover_mod_mult\<close>: the modular multiplication with the modulus block
  all ones, \<open>Mprime = 1\<close> and \<open>Rinv = 1\<close>.  Its last parameter is called \<^verbatim>\<open>num_words\<close>
  in the definition and \<^verbatim>\<open>z_words\<close> in the declaration; the caller passes \<open>z_words\<close>.
\<close>

definition mpi_mult_mpi_failover_mod_mult ::
  "(nat \<Rightarrow> bool) \<Rightarrow> rsa_hw \<Rightarrow> mbedtls_mpi \<Rightarrow> mbedtls_mpi \<Rightarrow> mbedtls_mpi \<Rightarrow> nat
     \<Rightarrow> ret_code \<times> mbedtls_mpi \<times> rsa_hw" where
  "mpi_mult_mpi_failover_mod_mult can_alloc hw Z X Y num_words =
     (let hw1 = esp_mpi_acquire_hardware hw;
          hw2 = fold (\<lambda>i. mem_write (RSA_MEM_M_BLOCK_BASE, 0) i 0xFFFFFFFF) [0..<num_words] hw1;
          hw3 = hw2\<lparr>RSA_M_DASH_REG := 1\<rparr>;
          hw4 = hw3\<lparr>RSA_LENGTH_REG := of_nat num_words - 1\<rparr>;
          hw5 = mpi_to_mem_block (RSA_MEM_X_BLOCK_BASE, 0) X num_words hw4;
          hw6 = mpi_to_mem_block (RSA_MEM_Y_BLOCK_BASE, 0) Y num_words hw5;
          hw7 = mem_write (RSA_MEM_RB_BLOCK_BASE, 0) 0 1 hw6;
          hw8 = fold (\<lambda>i. mem_write (RSA_MEM_RB_BLOCK_BASE, 0) i 0) [1..<num_words] hw7;
          hw9 = start_op RSA_MOD_MULT_START_REG hw8;
          hw10 = wait_op_complete RSA_MOD_MULT_START_REG hw9;
          Z' = snd (mem_block_to_mpi can_alloc Z (RSA_MEM_Z_BLOCK_BASE, 0) num_words hw10);
          hw11 = esp_mpi_release_hardware hw10
      in (None, Z', hw11))"

lemma mpi_words_loop_le: "mpi_words_loop p i \<le> i"
  by (induction i) auto

lemma mpi_words_le_length: "mpi_words X \<le> length (mpi_p X)"
  by (simp add: mpi_words_def mpi_words_loop_le)

lemma mpi_words_loop_top: "mpi_words_loop p n = Suc i \<Longrightarrow> p ! i \<noteq> 0"
  by (induction n) (auto split: if_splits)

lemma nat_bitlen_le: "v < 2 ^ k \<Longrightarrow> nat_bitlen v \<le> k"
proof (induction k arbitrary: v)
  case 0
  then show ?case by simp
next
  case (Suc k)
  have "v div 2 < 2 ^ k" using Suc.prems by simp
  from Suc.IH [OF this] show ?case by (simp del: nat_bitlen.simps add: nat_bitlen.simps [of v])
qed

lemma nat_bitlen_pos: "0 < v \<Longrightarrow> 0 < nat_bitlen v"
  by simp

lemma bitlen_words: "bits_to_words (mbedtls_mpi_bitlen X) = mpi_words X"
proof (cases "mpi_words X")
  case 0
  then show ?thesis by (simp add: mbedtls_mpi_bitlen_def bits_to_words_def)
next
  case (Suc i)
  then have nz: "mpi_p X ! i \<noteq> 0"
    using mpi_words_loop_top [of "mpi_p X" "length (mpi_p X)" i] by (simp add: mpi_words_def)
  then have "0 < unat (mpi_p X ! i)" by (simp add: unat_gt_0)
  then have lo: "0 < nat_bitlen (unat (mpi_p X ! i))" by (rule nat_bitlen_pos)
  have "unat (mpi_p X ! i) < 2 ^ 32" using unsigned_less [of "mpi_p X ! i"] by simp
  then have hi: "nat_bitlen (unat (mpi_p X ! i)) \<le> 32" by (rule nat_bitlen_le)
  from lo hi Suc show ?thesis
    by (simp add: mbedtls_mpi_bitlen_def bits_to_words_def del: nat_bitlen.simps)
qed

text \<open>
  \<^verbatim>\<open>mbedtls_mpi_mul_mpi\<close>: \<open>Z = X * Y\<close>, and \<^verbatim>\<open>mpi_mult_mpi_overlong\<close>, which splits \<open>Y\<close> into
  the views \<open>Yp\<close> (the low \<open>y_words div 2\<close> limbs) and \<open>Ypp\<close> (the limbs above) and calls the
  multiplication again on each.
\<close>

function mbedtls_mpi_mul_mpi ::
  "(nat \<Rightarrow> bool) \<Rightarrow> rsa_hw \<Rightarrow> mbedtls_mpi \<Rightarrow> mbedtls_mpi \<Rightarrow> mbedtls_mpi
     \<Rightarrow> ret_code \<times> mbedtls_mpi \<times> rsa_hw"
and mpi_mult_mpi_overlong ::
  "(nat \<Rightarrow> bool) \<Rightarrow> rsa_hw \<Rightarrow> mbedtls_mpi \<Rightarrow> mbedtls_mpi \<Rightarrow> mbedtls_mpi \<Rightarrow> nat \<Rightarrow> nat
     \<Rightarrow> ret_code \<times> mbedtls_mpi \<times> rsa_hw"
where
  "mbedtls_mpi_mul_mpi can_alloc hw Z X Y =
     (let x_bits = mbedtls_mpi_bitlen X;
          y_bits = mbedtls_mpi_bitlen Y;
          x_words = bits_to_words x_bits;
          y_words = bits_to_words y_bits;
          num_words = max x_words y_words;
          z_words = x_words + y_words
      in
      if x_bits = 0 \<or> y_bits = 0 then (None, snd (mbedtls_mpi_lset can_alloc Z 0), hw)
      else if x_bits = 1 then
        (case mbedtls_mpi_copy can_alloc Z Y of
           (ret, Z') \<Rightarrow> (ret, Z'\<lparr>mpi_s := mpi_s Z' * mpi_s X\<rparr>, hw))
      else if y_bits = 1 then
        (case mbedtls_mpi_copy can_alloc Z X of
           (ret, Z') \<Rightarrow> (ret, Z'\<lparr>mpi_s := mpi_s Z' * mpi_s Y\<rparr>, hw))
      else if num_words * 32 > 2048 then
        (if z_words * 32 \<le> 4096
         then mpi_mult_mpi_failover_mod_mult can_alloc hw Z X Y z_words
         else
           (let Z' = snd (mbedtls_mpi_grow can_alloc Z z_words) in
            if y_words > x_words
            then mpi_mult_mpi_overlong can_alloc hw Z' X Y y_words z_words
            else mpi_mult_mpi_overlong can_alloc hw Z' Y X x_words z_words))
      else
        (let hw1 = esp_mpi_acquire_hardware hw;
             hw2 = mpi_to_mem_block (RSA_MEM_X_BLOCK_BASE, 0) X num_words hw1;
             hw3 = mpi_to_mem_block (RSA_MEM_Z_BLOCK_BASE, num_words) Y num_words hw2;
             hw4 = hw3\<lparr>RSA_M_DASH_REG := 0\<rparr>;
             hw5 = hw4\<lparr>RSA_LENGTH_REG := of_nat (num_words * 2) - 1\<rparr>;
             hw6 = start_op RSA_MULT_START_REG hw5;
             hw7 = wait_op_complete RSA_MULT_START_REG hw6
         in
         case mem_block_to_mpi can_alloc Z (RSA_MEM_Z_BLOCK_BASE, 0) z_words hw7 of
           (ret, Z1) \<Rightarrow>
             (ret, Z1\<lparr>mpi_s := mpi_s X * mpi_s Y\<rparr>, esp_mpi_release_hardware hw7)))"
| "mpi_mult_mpi_overlong can_alloc hw Z X Y y_words z_words =
     (let words_slice = y_words div 2;
          Yp = \<lparr>mpi_s = mpi_s Y, mpi_p = take words_slice (mpi_p Y)\<rparr>;
          Ypp = \<lparr>mpi_s = mpi_s Y,
                 mpi_p = take (y_words - words_slice) (drop words_slice (mpi_p Y))\<rparr>
      in
      case mbedtls_mpi_mul_mpi can_alloc hw mbedtls_mpi_init X Yp of
        (Some e, Ztemp, hw1) \<Rightarrow> (Some e, Z, hw1)
      | (None, Ztemp, hw1) \<Rightarrow>
          (case mbedtls_mpi_mul_mpi can_alloc hw1 Z X Ypp of
             (Some e, Z1, hw2) \<Rightarrow> (Some e, Z1, hw2)
           | (None, Z1, hw2) \<Rightarrow>
               (case mbedtls_mpi_shift_l can_alloc Z1 (words_slice * 32) of
                  (Some e, Z2) \<Rightarrow> (Some e, Z2, hw2)
                | (None, Z2) \<Rightarrow>
                    (case mbedtls_mpi_add_mpi can_alloc Z2 Z2 Ztemp of
                       (ret, Z3) \<Rightarrow> (ret, Z3, hw2)))))"
  by pat_completeness auto

termination
proof (relation "measure (\<lambda>c. case c of
          Inl (ca, hw, Z, X, Y) \<Rightarrow> 2 * (mpi_words X + mpi_words Y) + 1
        | Inr (ca, hw, Z, X, Y, yw, zw) \<Rightarrow>
            2 * (mpi_words X + yw) + (if yw < 2 then 2 else 0))", goal_cases)
  case 1
  show ?case by simp
next
  case (2 ca hw Z X Y x_bits y_bits x_words y_words num_words z_words Z')
  then show ?case by (simp add: bitlen_words)
next
  case (3 ca hw Z X Y x_bits y_bits x_words y_words num_words z_words Z')
  then show ?case by (simp add: bitlen_words)
next
  case (4 ca hw Z X Y yw zw ws Yp Ypp)
  have "mpi_words Yp \<le> length (mpi_p Yp)" by (rule mpi_words_le_length)
  also have "\<dots> \<le> yw div 2" using 4 by simp
  finally have "mpi_words Yp \<le> yw div 2" .
  then have "2 * (mpi_words X + mpi_words Yp) + 1
               < 2 * (mpi_words X + yw) + (if yw < 2 then 2 else 0)"
    by (cases "yw < 2") auto
  then show ?case by simp
next
  case (5 ca hw Z X Y yw zw ws Yp Ypp r Zt hw1)
  have "mpi_words Ypp \<le> length (mpi_p Ypp)" by (rule mpi_words_le_length)
  also have "\<dots> \<le> yw - yw div 2" using 5 by simp
  finally have "mpi_words Ypp \<le> yw - yw div 2" .
  then have "2 * (mpi_words X + mpi_words Ypp) + 1
               < 2 * (mpi_words X + yw) + (if yw < 2 then 2 else 0)"
    by (simp split: if_splits) arith
  then show ?case by simp
qed

declare mbedtls_mpi_mul_mpi.simps [simp del] mpi_mult_mpi_overlong.simps [simp del]

section \<open>The Montgomery constant\<close>

lemma cast_id: "unat (N :: 64 word) < 2 ^ 32 \<Longrightarrow> ucast (ucast N :: 32 word) = N"
proof -
  assume a: "unat N < 2 ^ 32"
  have "unat (ucast (ucast N :: 32 word) :: 64 word) = unat N"
    using a by (simp add: unsigned_ucast_eq unsigned_take_bit_eq take_bit_nat_eq_self)
  then show ?thesis by (simp add: word_unat_eq_iff)
qed

lemma unat_shl1: "unat (a :: 64 word) < 2 ^ 63 \<Longrightarrow> unat (push_bit 1 a) = 2 * unat a"
  by (simp add: push_bit_eq_mult unat_word_ariths)

lemma step_mod:
  fixes P :: nat
  assumes "P mod 2 ^ j = 1"
  shows "P mod 2 ^ Suc j = 1 \<or> P mod 2 ^ Suc j = 1 + 2 ^ j"
  using mod_double_nat [of P "2 ^ j"] assms by auto

lemma odd_mult_pow:
  fixes N :: nat
  assumes "odd N"
  shows "(N * 2 ^ j) mod 2 ^ Suc j = 2 ^ j"
proof -
  have "(N * 2 ^ j) mod 2 ^ Suc j = 2 ^ j * (N mod 2)"
    by (simp add: mult.commute)
  then show ?thesis using assms by (simp add: odd_iff_mod_2_eq_one)
qed

lemma dk_step:
  fixes N t :: nat
  assumes "odd N" "(N * t) mod 2 ^ j = 1" "1 \<le> j"
  shows "(N * (if 2 ^ j \<le> (N * t) mod 2 ^ Suc j then t + 2 ^ j else t)) mod 2 ^ Suc j = 1"
proof (cases "2 ^ j \<le> (N * t) mod 2 ^ Suc j")
  case True
  have two: "(2::nat) \<le> 2 ^ j" using assms(3) power_increasing [of 1 j "2::nat"] by simp
  with True step_mod [OF assms(2)] have e: "(N * t) mod 2 ^ Suc j = 1 + 2 ^ j"
    by auto
  have "(N * (t + 2 ^ j)) mod 2 ^ Suc j = ((N * t) mod 2 ^ Suc j + (N * 2 ^ j) mod 2 ^ Suc j) mod 2 ^ Suc j"
    by (simp only: distrib_left mod_add_eq)
  also have "\<dots> = (1 + 2 ^ j + 2 ^ j) mod 2 ^ Suc j"
    by (simp only: e odd_mult_pow [OF assms(1)])
  also have "\<dots> = (1 + 2 ^ Suc j) mod 2 ^ Suc j"
  proof -
    have "(1 + 2 ^ j + 2 ^ j :: nat) = 1 + 2 ^ Suc j" by simp
    then show ?thesis by (rule arg_cong)
  qed
  also have "\<dots> = 1 mod 2 ^ Suc j" by (rule mod_add_self2)
  also have "\<dots> = 1" using two by (intro mod_less) simp
  finally show ?thesis using True by simp
next
  case False
  with step_mod [OF assms(2)] have "(N * t) mod 2 ^ Suc j = 1" by auto
  with False show ?thesis by simp
qed


lemma modular_inverse_loop_inv:
  assumes "1 \<le> j" "j \<le> 32" "unat N < 2 ^ 32" "odd (unat N)"
    "unat a = 2 ^ j" "unat b = 2 ^ Suc j" "unat t < 2 ^ j" "(unat N * unat t) mod 2 ^ j = 1"
  shows "unat (modular_inverse_loop (Suc j) N t a b) < 2 ^ 32 \<and>
         (unat N * unat (modular_inverse_loop (Suc j) N t a b)) mod 2 ^ 32 = 1"
  using assms
proof (induction "32 - j" arbitrary: j t a b)
  case 0
  then have "j = 32" by simp
  with 0 show ?case by (subst (1 2) modular_inverse_loop.simps) simp
next
  case (Suc k)
  then have j31: "j \<le> 31" by simp
  let ?t' = "if a \<le> ucast (ucast N :: mbedtls_mpi_uint) * t mod b then t + a else t"
  have pj: "(2::nat) ^ j \<le> 2 ^ 31" using j31 by (intro power_increasing) simp_all
  have cast: "ucast (ucast N :: mbedtls_mpi_uint) = N" using Suc.prems(3) by (rule cast_id)
  have "unat N * unat t < 2 ^ 32 * 2 ^ 31"
    using Suc.prems(3,7) pj by (intro mult_strict_mono) auto
  then have prod: "unat (N * t) = unat N * unat t"
    using unat_mult_lem [of N t] by simp
  have cond: "(a \<le> N * t mod b) = (2 ^ j \<le> (unat N * unat t) mod 2 ^ Suc j)"
    by (simp only: word_le_nat_alt unat_mod prod Suc.prems(5,6))
  have "unat t + unat a < 2 ^ 64" using Suc.prems(5,7) pj by simp
  then have add: "unat (t + a) = unat t + 2 ^ j"
    using unat_add_lem [of t a] Suc.prems(5) by simp
  have t': "unat ?t' = (if 2 ^ j \<le> (unat N * unat t) mod 2 ^ Suc j then unat t + 2 ^ j else unat t)"
    by (simp only: cast cond add if_distrib [of unat])
  have lt: "unat ?t' < 2 ^ Suc j" using Suc.prems(7) by (simp only: t') simp
  have md: "(unat N * unat ?t') mod 2 ^ Suc j = 1"
    using dk_step [OF Suc.prems(4) Suc.prems(8) Suc.prems(1)] by (simp only: t')
  have a': "unat (push_bit 1 a) = 2 ^ Suc j"
    using Suc.prems(5) pj unat_shl1 [of a] by simp
  have b': "unat (push_bit 1 b) = 2 ^ Suc (Suc j)"
    using Suc.prems(6) pj unat_shl1 [of b] by simp
  have k: "k = 32 - Suc j" using Suc.hyps(2) by simp
  have IH: "unat (modular_inverse_loop (Suc (Suc j)) N ?t' (push_bit 1 a) (push_bit 1 b)) < 2 ^ 32 \<and>
        (unat N * unat (modular_inverse_loop (Suc (Suc j)) N ?t' (push_bit 1 a) (push_bit 1 b))) mod 2 ^ 32 = 1"
    using j31 by (intro Suc.hyps(1) [OF k _ _ Suc.prems(3,4) a' b' lt md]) simp_all
  have "modular_inverse_loop (Suc j) N t a b
          = modular_inverse_loop (Suc (Suc j)) N ?t' (push_bit 1 a) (push_bit 1 b)"
    using j31 by (subst modular_inverse_loop.simps) simp
  with IH show ?case by simp
qed


lemma neg_inverse_mod:
  fixes w t :: nat
  assumes "(w * t) mod 2 ^ 32 = 1" "t < 2 ^ 32"
  shows "(w * (2 ^ 32 - t)) mod 2 ^ 32 = 2 ^ 32 - 1"
proof -
  have "int ((w * (2 ^ 32 - t)) mod 2 ^ 32) = (int w * (2 ^ 32 - int t)) mod 2 ^ 32"
    using assms(2) by (simp add: zmod_int of_nat_diff)
  also have "\<dots> = (- (int w * int t) + int w * 2 ^ 32) mod 2 ^ 32"
    by (simp add: right_diff_distrib)
  also have "\<dots> = (- (int w * int t)) mod 2 ^ 32"
    by (rule mod_mult_self1)
  also have "\<dots> = (- ((int w * int t) mod 2 ^ 32)) mod 2 ^ 32"
    by (simp add: mod_minus_eq)
  also have "(int w * int t) mod 2 ^ 32 = 1"
    using assms(1) by (metis of_nat_mult of_nat_numeral of_nat_power zmod_int of_nat_1)
  finally show ?thesis by simp
qed

lemma modular_inverse_word:
  assumes "mpi_p M = w # ws" "odd (unat w)"
  shows "(unat w * unat (modular_inverse M)) mod 2 ^ 32 = 2 ^ 32 - 1 \<and>
         unat (modular_inverse M) = 2 ^ 32 - unat (modular_inverse_loop 2 (ucast w) 1 2 4)"
proof -
  let ?N = "ucast w :: uint64_t"
  let ?t = "modular_inverse_loop 2 ?N 1 2 4"
  have lt: "unat w < 2 ^ 32" using unsigned_less [of w] by simp
  then have "unat w < 2 ^ 64" by simp
  then have N: "unat ?N = unat w" by (simp add: unsigned_ucast_eq take_bit_nat_eq_self)
  have inv: "unat ?t < 2 ^ 32 \<and> (unat ?N * unat ?t) mod 2 ^ 32 = 1"
    using modular_inverse_loop_inv [of 1 ?N 2 4 1, unfolded Suc_1] assms(2) lt
    by (simp add: N odd_iff_mod_2_eq_one)
  then have t0: "unat ?t \<noteq> 0" by (auto intro: ccontr)
  have le: "?t \<le> 4294967296" using inv by (simp add: word_le_nat_alt)
  have u: "unat (4294967296 - ?t) = 4294967296 - unat ?t"
    using unat_sub [OF le] by simp
  have r: "unat (modular_inverse M) = 2 ^ 32 - unat ?t"
    using t0 by (simp add: modular_inverse_def assms(1) unsigned_ucast_eq u take_bit_nat_eq_self)
  show ?thesis
    using neg_inverse_mod [of "unat w" "unat ?t"] inv by (simp add: r N)
qed


text \<open>
  Claim C7.  \<^verbatim>\<open>modular_inverse\<close> depends on the modulus through its least significant
  limb only: two integers with the same first limb \<open>w\<close> get the same constant.  When \<open>w\<close> is
  odd the constant \<open>N'\<close> satisfies \<open>w * N' mod 2 ^ 32 = 2 ^ 32 - 1\<close>, that is
  \<open>M * N' \<equiv> -1 (mod 2 ^ 32)\<close>, and it is \<open>2 ^ 32 - t\<close> for the value \<open>t\<close> the loop leaves
  after its iterations \<open>i = 2, \<dots>, 32\<close>.
\<close>

theorem modular_inverse_correct:
  assumes "mpi_p M = w # ws" and "mpi_p M' = w # ws'"
  shows "modular_inverse M' = modular_inverse M \<and>
         (odd (unat w) \<longrightarrow>
            (unat w * unat (modular_inverse M)) mod 2 ^ 32 = 2 ^ 32 - 1 \<and>
            unat (modular_inverse M) = 2 ^ 32 - unat (modular_inverse_loop 2 (ucast w) 1 2 4))"
proof -
  have "modular_inverse M' = modular_inverse M"
    by (simp add: modular_inverse_def assms)
  then show ?thesis using modular_inverse_word [OF assms(1)] by blast
qed

theorem modular_inverse_correct_witness:
  "modular_inverse \<lparr>mpi_s = - 1, mpi_p = [1000003, 5]\<rparr>
     = modular_inverse \<lparr>mpi_s = 1, mpi_p = [1000003]\<rparr> \<and>
   (unat (1000003 :: mbedtls_mpi_uint)
      * unat (modular_inverse \<lparr>mpi_s = 1, mpi_p = [1000003]\<rparr>)) mod 2 ^ 32 = 2 ^ 32 - 1 \<and>
   unat (modular_inverse \<lparr>mpi_s = 1, mpi_p = [1000003]\<rparr>)
     = 2 ^ 32 - unat (modular_inverse_loop 2 (ucast (1000003 :: mbedtls_mpi_uint)) 1 2 4)"
proof -
  have p1: "mpi_p \<lparr>mpi_s = 1, mpi_p = [1000003]\<rparr> = 1000003 # []" by simp
  have p2: "mpi_p \<lparr>mpi_s = - 1, mpi_p = [1000003, 5]\<rparr> = 1000003 # [5]" by simp
  have o: "odd (unat (1000003 :: mbedtls_mpi_uint))" by simp
  from modular_inverse_correct [OF p1 p2] o show ?thesis by blast
qed

section \<open>Limb arrays\<close>

lemma limbs_val_append:
  "limbs_val (xs @ ys) = limbs_val xs + 2 ^ (32 * length xs) * limbs_val ys"
  by (induction xs) (simp_all add: algebra_simps power_add)

lemma limbs_val_replicate_0 [simp]: "limbs_val (replicate n 0) = 0"
  by (induction n) simp_all

lemma limbs_val_lt: "limbs_val xs < 2 ^ (32 * length xs)"
proof (induction xs)
  case Nil
  show ?case by simp
next
  case (Cons w ws)
  have "unat w < 2 ^ 32" using unsigned_less [of w] by simp
  then have "unat w + 2 ^ 32 * limbs_val ws < 2 ^ 32 * (1 + limbs_val ws)" by simp
  also have "\<dots> \<le> 2 ^ 32 * 2 ^ (32 * length ws)"
    using Cons.IH by (intro mult_le_mono2) simp
  finally show ?case by (simp add: power_add)
qed

lemma lt_pow_mono:
  fixes x :: nat
  assumes "x < 2 ^ (32 * a)" "a \<le> b"
  shows "x < 2 ^ (32 * b)"
proof -
  have "(2::nat) ^ (32 * a) \<le> 2 ^ (32 * b)"
    using assms(2) by (intro power_increasing) simp_all
  with assms(1) show ?thesis by (rule order_less_le_trans)
qed

lemma limbs_val_take: "limbs_val (take n xs) = limbs_val xs mod 2 ^ (32 * n)"
proof (cases "n \<le> length xs")
  case True
  have "limbs_val xs = limbs_val (take n xs) + 2 ^ (32 * n) * limbs_val (drop n xs)"
    using limbs_val_append [of "take n xs" "drop n xs"] True by (simp add: min_absorb2)
  moreover have "limbs_val (take n xs) < 2 ^ (32 * n)"
    using limbs_val_lt [of "take n xs"] True by (simp add: min_absorb2)
  ultimately show ?thesis by simp
next
  case False
  then have "limbs_val xs < 2 ^ (32 * n)"
    using lt_pow_mono [OF limbs_val_lt [of xs], of n] by simp
  with False show ?thesis by simp
qed

lemma length_limbs_of_nat [simp]: "length (limbs_of_nat n v) = n"
  by (induction n arbitrary: v) simp_all

lemma limbs_val_limbs_of_nat: "limbs_val (limbs_of_nat n v) = v mod 2 ^ (32 * n)"
proof (induction n arbitrary: v)
  case 0
  show ?case by simp
next
  case (Suc n)
  have "unat (of_nat (v mod 2 ^ 32) :: mbedtls_mpi_uint) = v mod 2 ^ 32"
    by (simp add: unat_of_nat)
  then show ?case
    by (simp add: Suc.IH power_add mod_mult2_eq)
qed

lemma mpi_words_loop_zero: "mpi_words_loop p n \<le> i \<Longrightarrow> i < n \<Longrightarrow> p ! i = 0"
  by (induction n) (auto split: if_splits simp: less_Suc_eq)

lemma limbs_val_zero_tail:
  "(\<And>i. k \<le> i \<Longrightarrow> i < length xs \<Longrightarrow> xs ! i = 0) \<Longrightarrow> limbs_val (drop k xs) = 0"
proof (induction xs arbitrary: k)
  case Nil
  show ?case by simp
next
  case (Cons w ws)
  show ?case
  proof (cases k)
    case 0
    have "w = 0" using Cons.prems [of 0] 0 by simp
    moreover have "limbs_val (drop 0 ws) = 0"
      using Cons.prems [of "Suc i" for i] 0 by (intro Cons.IH) auto
    ultimately show ?thesis using 0 by simp
  next
    case (Suc j)
    have "limbs_val (drop j ws) = 0"
      using Cons.prems [of "Suc i" for i] Suc by (intro Cons.IH) auto
    then show ?thesis using Suc by simp
  qed
qed

lemma limbs_val_mpi_words: "limbs_val (take (mpi_words X) (mpi_p X)) = limbs_val (mpi_p X)"
proof -
  have "limbs_val (drop (mpi_words X) (mpi_p X)) = 0"
    by (rule limbs_val_zero_tail) (simp add: mpi_words_def mpi_words_loop_zero)
  then show ?thesis
    using limbs_val_append [of "take (mpi_words X) (mpi_p X)" "drop (mpi_words X) (mpi_p X)"]
    by simp
qed

lemma limbs_val_lt_words: "limbs_val (mpi_p X) < 2 ^ (32 * mpi_words X)"
  using limbs_val_lt [of "take (mpi_words X) (mpi_p X)"] mpi_words_le_length [of X]
  by (simp add: limbs_val_mpi_words min_absorb2)

lemma limbs_val_take_words:
  "mpi_words X \<le> n \<Longrightarrow> limbs_val (take n (mpi_p X)) = limbs_val (mpi_p X)"
proof -
  assume "mpi_words X \<le> n"
  then have "limbs_val (mpi_p X) < 2 ^ (32 * n)"
    by (rule lt_pow_mono [OF limbs_val_lt_words])
  then show ?thesis by (simp add: limbs_val_take)
qed


section \<open>Operand blocks\<close>

lemma rsa_mem_update_cong:
  assumes "\<And>blk j. f blk j = g blk j"
  shows "hw\<lparr>rsa_mem := f\<rparr> = hw\<lparr>rsa_mem := g\<rparr>"
proof -
  have "f = g" by (intro ext assms)
  then show ?thesis by simp
qed

lemma rsa_mem_update_id:
  assumes "\<And>blk j. f blk j = rsa_mem hw blk j"
  shows "hw\<lparr>rsa_mem := f\<rparr> = hw"
proof -
  have "f = rsa_mem hw" by (intro ext assms)
  then show ?thesis by simp
qed

lemma fold_mem_write:
  "fold (\<lambda>i. mem_write base i (f i)) [a..<b] hw =
     hw\<lparr>rsa_mem := (\<lambda>blk j. if blk = fst base \<and> snd base + a \<le> j \<and> j < snd base + b
                              then f (j - snd base) else rsa_mem hw blk j)\<rparr>"
proof (induction b)
  case 0
  show ?case by (simp, rule rsa_mem_update_id [symmetric]) auto
next
  case (Suc b)
  show ?case
  proof (cases "a \<le> b")
    case True
    have "(\<lambda>blk j. if blk = fst base \<and> snd base + a \<le> j \<and> j < snd base + Suc b
                    then f (j - snd base) else rsa_mem hw blk j)
        = (\<lambda>blk j. if blk = fst base \<and> snd base + a \<le> j \<and> j < snd base + b
                    then f (j - snd base) else rsa_mem hw blk j)
            (fst base := ((\<lambda>j. if snd base + a \<le> j \<and> j < snd base + b
                    then f (j - snd base) else rsa_mem hw (fst base) j))(snd base + b := f b))"
      using True by (intro ext) (auto simp: less_Suc_eq)
    then show ?thesis using True by (simp add: Suc.IH) (simp add: mem_write_def)
  next
    case False
    have "(\<lambda>blk j. if blk = fst base \<and> snd base + a \<le> j \<and> j < snd base + Suc b
                    then f (j - snd base) else rsa_mem hw blk j) = rsa_mem hw"
      using False by (intro ext) auto
    then show ?thesis using False by simp
  qed
qed

lemma mpi_to_mem_block_eq:
  "mpi_to_mem_block base X n hw =
     hw\<lparr>rsa_mem := (\<lambda>blk j. if blk = fst base \<and> snd base \<le> j \<and> j < snd base + n
                 then (if j - snd base < length (mpi_p X) then mpi_p X ! (j - snd base) else 0)
                 else rsa_mem hw blk j)\<rparr>"
  unfolding mpi_to_mem_block_def Let_def fold_mem_write
  by (simp, intro conjI impI rsa_mem_update_cong) auto

lemma block_write_eq:
  "block_write base ws hw =
     hw\<lparr>rsa_mem := (\<lambda>blk j. if blk = fst base \<and> snd base \<le> j \<and> j < snd base + length ws
                 then ws ! (j - snd base) else rsa_mem hw blk j)\<rparr>"
  unfolding block_write_def fold_mem_write by simp

lemma block_read_block_write [simp]:
  "block_read (block_write base ws hw) base (length ws) = ws"
  by (auto simp: block_read_def block_write_eq mem_read_def intro!: nth_equalityI)

lemma block_read_mpi_to_mem_block [simp]:
  "block_read (mpi_to_mem_block base X n hw) base n
     = take n (mpi_p X) @ replicate (n - length (mpi_p X)) 0"
  by (auto simp: block_read_def mpi_to_mem_block_eq mem_read_def nth_append intro!: nth_equalityI)

lemma block_read_cong:
  "(\<And>j. snd base \<le> j \<Longrightarrow> j < snd base + n \<Longrightarrow> rsa_mem hw (fst base) j = rsa_mem hw' (fst base) j)
     \<Longrightarrow> block_read hw base n = block_read hw' base n"
  by (simp add: block_read_def mem_read_def)

lemma limbs_val_marshalled:
  "limbs_val (take n (mpi_p X) @ replicate (n - length (mpi_p X)) 0) = limbs_val (take n (mpi_p X))"
  by (simp add: limbs_val_append)


section \<open>Growing and reading back\<close>

lemma mbedtls_mpi_grow_None:
  "mbedtls_mpi_grow can_alloc X n = (None, X') \<Longrightarrow>
     X' = X\<lparr>mpi_p := mpi_p X @ replicate (n - length (mpi_p X)) 0\<rparr>"
  by (auto simp: mbedtls_mpi_grow_def split: if_splits)

lemma mbedtls_mpi_grow_Some:
  "mbedtls_mpi_grow can_alloc X n = (Some e, X') \<Longrightarrow> X' = X \<and> e = MBEDTLS_ERR_MPI_ALLOC_FAILED"
  by (auto simp: mbedtls_mpi_grow_def split: if_splits)

lemma mbedtls_mpi_grow_ok:
  "n \<le> MBEDTLS_MPI_MAX_LIMBS \<Longrightarrow> n \<le> length (mpi_p X) \<or> can_alloc n \<Longrightarrow>
     mbedtls_mpi_grow can_alloc X n
       = (None, X\<lparr>mpi_p := mpi_p X @ replicate (n - length (mpi_p X)) 0\<rparr>)"
  by (auto simp: mbedtls_mpi_grow_def)

lemma grow_len: "a + (n - a) - n = a - (n::nat)"
  by arith

lemma mem_block_to_mpi_None:
  assumes "mem_block_to_mpi can_alloc Z base n hw = (None, Z')"
  shows "Z' = Z\<lparr>mpi_p := block_read hw base n @ replicate (length (mpi_p Z) - n) 0\<rparr>"
proof -
  obtain r Z1 where g: "mbedtls_mpi_grow can_alloc Z n = (r, Z1)" by (cases "mbedtls_mpi_grow can_alloc Z n")
  with assms have r: "r = None" by (cases r) (auto simp: mem_block_to_mpi_def)
  from mbedtls_mpi_grow_None [OF g [unfolded r]] assms g r show ?thesis
    by (auto simp: mem_block_to_mpi_def grow_len)
qed

lemma mem_block_to_mpi_ok:
  "n \<le> MBEDTLS_MPI_MAX_LIMBS \<Longrightarrow> n \<le> length (mpi_p Z) \<or> can_alloc n \<Longrightarrow>
     mem_block_to_mpi can_alloc Z base n hw
       = (None, Z\<lparr>mpi_p := block_read hw base n @ replicate (length (mpi_p Z) - n) 0\<rparr>)"
  by (simp add: mem_block_to_mpi_def mbedtls_mpi_grow_ok grow_len)

lemma mem_block_to_mpi_Some:
  "mem_block_to_mpi can_alloc Z base n hw = (Some e, Z') \<Longrightarrow>
     Z' = Z \<and> e = MBEDTLS_ERR_MPI_ALLOC_FAILED"
  by (cases "mbedtls_mpi_grow can_alloc Z n")
     (auto simp: mem_block_to_mpi_def dest: mbedtls_mpi_grow_Some split: option.splits)

lemma length_block_read [simp]: "length (block_read hw base n) = n"
  by (simp add: block_read_def)

lemma nth_block_read [simp]: "j < n \<Longrightarrow> block_read hw base n ! j = rsa_mem hw (fst base) (snd base + j)"
  by (simp add: block_read_def mem_read_def)

lemma mpi_words_loop_eq:
  "k \<le> n \<Longrightarrow> (\<And>i. k \<le> i \<Longrightarrow> i < n \<Longrightarrow> p ! i = 0) \<Longrightarrow> (0 < k \<Longrightarrow> p ! (k - 1) \<noteq> 0)
     \<Longrightarrow> mpi_words_loop p n = k"
proof (induction n)
  case 0
  then show ?case by simp
next
  case (Suc n)
  show ?case
  proof (cases "k = Suc n")
    case True
    with Suc.prems(3) show ?thesis by simp
  next
    case False
    with Suc.prems(1) have kn: "k \<le> n" by simp
    then have "p ! n = 0" using Suc.prems(2) [of n] by simp
    moreover have "mpi_words_loop p n = k"
      using kn Suc.prems(2,3) by (intro Suc.IH) auto
    ultimately show ?thesis by simp
  qed
qed

lemma mpi_words_top_nonzero: "0 < mpi_words X \<Longrightarrow> mpi_p X ! (mpi_words X - 1) \<noteq> 0"
  using mpi_words_loop_top [of "mpi_p X" "length (mpi_p X)" "mpi_words X - 1"]
  by (simp add: mpi_words_def)

lemma mpi_words_above_zero: "mpi_words X \<le> i \<Longrightarrow> i < length (mpi_p X) \<Longrightarrow> mpi_p X ! i = 0"
  by (simp add: mpi_words_def mpi_words_loop_zero)


lemma limbs_val_eq_0_iff: "limbs_val xs = 0 \<longleftrightarrow> (\<forall>i < length xs. xs ! i = 0)"
proof (induction xs)
  case Nil
  show ?case by simp
next
  case (Cons w ws)
  show ?case by (simp add: Cons.IH unat_eq_0 All_less_Suc2)
qed

lemma nth_append_len:
  "length A = m \<Longrightarrow> (A @ B) ! j = (if j < m then A ! j else B ! (j - m))"
  by (auto simp: nth_append)


text \<open>
  Claim C8.  An integer \<open>X\<close> is written into a block at width \<open>nw\<close> and the block is read
  back into \<open>Z\<close> at width \<open>nr\<close>, the read succeeding.  The write stores the limbs of \<open>X\<close>
  and zeros up to \<open>nw\<close>, and nothing beyond; the read copies \<open>nr\<close> words of the block as
  they are.  So every limb of the result below both widths is the limb of \<open>X\<close> at that
  place (zero past the end of \<open>X\<close>), every limb from \<open>nw\<close> up to \<open>nr\<close> is the word the block
  held before the write, and every limb from \<open>nr\<close> on is zero.  The magnitude read back is
  that of \<open>X\<close> truncated to the low \<open>min nw nr\<close> words plus the old words of the block
  shifted up by \<open>nw\<close> words.  It is the truncated magnitude of \<open>X\<close> exactly when the block
  held zeros between the two widths: always when \<open>nr \<le> nw\<close> (same or smaller read width),
  and at a larger read width only if the block was clean there, as it is right after an
  acquisition.  With such a block and both widths at least the significant word count of
  \<open>X\<close>, the magnitude and the significant word count are those of \<open>X\<close>.
\<close>

theorem marshalling_round_trip:
  assumes rd: "mem_block_to_mpi can_alloc Z base nr (mpi_to_mem_block base X nw hw) = (None, Z')"
  shows "(\<forall>j < length (mpi_p Z'). mpi_p Z' ! j =
            (if j < min nw nr then (if j < length (mpi_p X) then mpi_p X ! j else 0)
             else if j < nr then rsa_mem hw (fst base) (snd base + j) else 0))
       \<and> limbs_val (mpi_p Z') = limbs_val (mpi_p X) mod 2 ^ (32 * min nw nr)
             + 2 ^ (32 * nw) * limbs_val (block_read hw (fst base, snd base + nw) (nr - nw))
       \<and> ((\<forall>j. nw \<le> j \<and> j < nr \<longrightarrow> rsa_mem hw (fst base) (snd base + j) = 0)
            \<longleftrightarrow> limbs_val (mpi_p Z') = limbs_val (mpi_p X) mod 2 ^ (32 * min nw nr))
       \<and> ((\<forall>j. nw \<le> j \<and> j < nr \<longrightarrow> rsa_mem hw (fst base) (snd base + j) = 0)
            \<and> mpi_words X \<le> min nw nr \<longrightarrow>
            limbs_val (mpi_p Z') = limbs_val (mpi_p X) \<and> mpi_words Z' = mpi_words X)"
proof -
  let ?hw' = "mpi_to_mem_block base X nw hw"
  let ?m = "min nw nr"
  let ?old = "block_read hw (fst base, snd base + nw) (nr - nw)"
  let ?clean = "\<forall>j. nw \<le> j \<and> j < nr \<longrightarrow> rsa_mem hw (fst base) (snd base + j) = 0"
  have Z': "mpi_p Z' = block_read ?hw' base nr @ replicate (length (mpi_p Z) - nr) 0"
    using mem_block_to_mpi_None [OF rd] by simp
  have len: "nr \<le> length (mpi_p Z')" by (simp add: Z')
  have nth: "mpi_p Z' ! j =
      (if j < ?m then (if j < length (mpi_p X) then mpi_p X ! j else 0)
       else if j < nr then rsa_mem hw (fst base) (snd base + j) else 0)"
    if "j < length (mpi_p Z')" for j
  proof (cases "j < nr")
    case True
    then have "mpi_p Z' ! j = rsa_mem ?hw' (fst base) (snd base + j)"
      by (simp add: Z' nth_append)
    also have "\<dots> = (if j < nw then (if j < length (mpi_p X) then mpi_p X ! j else 0)
                      else rsa_mem hw (fst base) (snd base + j))"
      by (simp add: mpi_to_mem_block_eq)
    finally show ?thesis using True by simp
  next
    case False
    with that show ?thesis by (simp add: Z' nth_append)
  qed
  have eq: "mpi_p Z' = (take ?m (mpi_p X) @ replicate (?m - length (mpi_p X)) 0)
              @ ?old @ replicate (length (mpi_p Z') - nr) 0"
  proof (rule nth_equalityI)
    have "?m + (nr - nw) = nr" by arith
    then show "length (mpi_p Z') = length ((take ?m (mpi_p X) @ replicate (?m - length (mpi_p X)) 0)
              @ ?old @ replicate (length (mpi_p Z') - nr) 0)"
      using len by simp
  next
    fix j assume j: "j < length (mpi_p Z')"
    let ?A = "take ?m (mpi_p X) @ replicate (?m - length (mpi_p X)) 0"
    have lA: "length ?A = ?m" by simp
    consider "j < ?m" | "?m \<le> j" "j < nr" | "nr \<le> j" by arith
    then show "mpi_p Z' ! j = (?A @ ?old @ replicate (length (mpi_p Z') - nr) 0) ! j"
    proof cases
      case 1
      have "(?A @ ?old @ replicate (length (mpi_p Z') - nr) 0) ! j
              = (if j < ?m then ?A ! j else (?old @ replicate (length (mpi_p Z') - nr) 0) ! (j - ?m))"
        by (rule nth_append_len [OF lA])
      also have "\<dots> = ?A ! j" using 1 by (simp only: if_True)
      also have "\<dots> = (if j < length (mpi_p X) then mpi_p X ! j else 0)"
      proof (cases "j < length (mpi_p X)")
        case True
        with 1 show ?thesis by (simp add: nth_append)
      next
        case False
        with 1 have "j - length (mpi_p X) < ?m - length (mpi_p X)" by arith
        with False 1 show ?thesis by (simp add: nth_append min_absorb2)
      qed
      finally show ?thesis using 1 by (simp only: nth [OF j] if_True)
    next
      case 2
      then have nw: "nw \<le> j" "?m = nw" by auto
      have jj: "j - nw < nr - nw" using 2 nw by arith
      have "(?A @ ?old @ replicate (length (mpi_p Z') - nr) 0) ! j
              = (if j < ?m then ?A ! j else (?old @ replicate (length (mpi_p Z') - nr) 0) ! (j - ?m))"
        by (rule nth_append_len [OF lA])
      also have "\<dots> = (?old @ replicate (length (mpi_p Z') - nr) 0) ! (j - nw)"
        using 2 nw by simp
      also have "\<dots> = ?old ! (j - nw)"
        using jj by (simp add: nth_append)
      also have "\<dots> = rsa_mem hw (fst base) (snd base + nw + (j - nw))"
        using jj by simp
      also have "snd base + nw + (j - nw) = snd base + j" using nw by arith
      finally show ?thesis using 2 nw by (simp add: nth [OF j])
    next
      case 3
      have m: "?m + (nr - nw) = nr" by arith
      have "(?A @ ?old @ replicate (length (mpi_p Z') - nr) 0) ! j
              = (if j < ?m then ?A ! j else (?old @ replicate (length (mpi_p Z') - nr) 0) ! (j - ?m))"
        by (rule nth_append_len [OF lA])
      also have "\<dots> = (?old @ replicate (length (mpi_p Z') - nr) 0) ! (j - ?m)"
        using 3 by simp
      also have "\<dots> = replicate (length (mpi_p Z') - nr) 0 ! (j - ?m - (nr - nw))"
      proof -
        have "\<not> j - ?m < nr - nw" using 3 m by arith
        moreover have "j - ?m - (nr - nw) = j - ?m - (nr - nw)" ..
        ultimately show ?thesis by (simp add: nth_append)
      qed
      also have "\<dots> = 0" using 3 j m by simp
      finally show ?thesis using 3 by (simp add: nth [OF j])
    qed
  qed
  have l1: "length (take ?m (mpi_p X) @ replicate (?m - length (mpi_p X)) 0) = ?m"
    by simp
  have e: "2 ^ (32 * ?m) * limbs_val ?old = 2 ^ (32 * nw) * limbs_val ?old"
    by (cases "nw \<le> nr") (simp_all add: min_absorb1 min_absorb2 block_read_def)
  have val: "limbs_val (mpi_p Z') = limbs_val (mpi_p X) mod 2 ^ (32 * ?m)
               + 2 ^ (32 * nw) * limbs_val ?old"
    by (subst eq, subst limbs_val_append, subst l1, subst limbs_val_append [of "take ?m (mpi_p X)"])
       (simp add: limbs_val_append limbs_val_take e del: replicate.simps)
  have old0: "limbs_val ?old = 0 \<longleftrightarrow> ?clean"
  proof -
    have "limbs_val ?old = 0 \<longleftrightarrow> (\<forall>i < nr - nw. rsa_mem hw (fst base) (snd base + nw + i) = 0)"
      by (simp add: limbs_val_eq_0_iff)
    also have "\<dots> \<longleftrightarrow> ?clean"
    proof
      assume a: "\<forall>i < nr - nw. rsa_mem hw (fst base) (snd base + nw + i) = 0"
      show ?clean
      proof (intro allI impI)
        fix j assume j: "nw \<le> j \<and> j < nr"
        then have "j - nw < nr - nw" by arith
        from a [rule_format, OF this] j show "rsa_mem hw (fst base) (snd base + j) = 0"
          by (simp add: add.assoc)
      qed
    next
      assume c: ?clean
      show "\<forall>i < nr - nw. rsa_mem hw (fst base) (snd base + nw + i) = 0"
      proof (intro allI impI)
        fix i assume "i < nr - nw"
        then have "nw \<le> nw + i \<and> nw + i < nr" by arith
        from c [rule_format, OF this] show "rsa_mem hw (fst base) (snd base + nw + i) = 0"
          by (simp add: add.assoc)
      qed
    qed
    finally show ?thesis .
  qed
  have iff: "?clean \<longleftrightarrow> limbs_val (mpi_p Z') = limbs_val (mpi_p X) mod 2 ^ (32 * ?m)"
    unfolding val old0 [symmetric] by simp
  have sig: "limbs_val (mpi_p Z') = limbs_val (mpi_p X) \<and> mpi_words Z' = mpi_words X"
    if c: ?clean and w: "mpi_words X \<le> ?m"
  proof
    have "limbs_val (mpi_p Z') = limbs_val (mpi_p X) mod 2 ^ (32 * ?m)"
      using iff c by blast
    then show "limbs_val (mpi_p Z') = limbs_val (mpi_p X)"
      using limbs_val_take_words [OF w] by (simp add: limbs_val_take)
    have "mpi_words_loop (mpi_p Z') (length (mpi_p Z')) = mpi_words X"
    proof (rule mpi_words_loop_eq)
      show "mpi_words X \<le> length (mpi_p Z')" using w len by simp
    next
      fix i assume i: "mpi_words X \<le> i" "i < length (mpi_p Z')"
      show "mpi_p Z' ! i = 0"
      proof (cases "i < ?m")
        case True
        with i show ?thesis by (simp add: nth mpi_words_above_zero)
      next
        case False
        show ?thesis
        proof (cases "i < nr")
          case True
          with False have "nw \<le> i \<and> i < nr" by arith
          from c [rule_format, OF this] False True show ?thesis by (simp add: nth [OF i(2)])
        next
          case nr: False
          with False show ?thesis by (simp add: nth [OF i(2)])
        qed
      qed
    next
      assume pos: "0 < mpi_words X"
      then have "mpi_words X - 1 < ?m" "mpi_words X - 1 < length (mpi_p X)"
        "mpi_words X - 1 < length (mpi_p Z')"
        using w len mpi_words_le_length [of X] by auto
      then show "mpi_p Z' ! (mpi_words X - 1) \<noteq> 0"
        using mpi_words_top_nonzero [OF pos] by (simp add: nth)
    qed
    then show "mpi_words Z' = mpi_words X" by (simp add: mpi_words_def)
  qed
  from nth val iff sig show ?thesis by blast
qed

theorem marshalling_round_trip_witness:
  "mem_block_to_mpi (\<lambda>k. True) mbedtls_mpi_init (RSA_MEM_X_BLOCK_BASE, 0) 4
       (mpi_to_mem_block (RSA_MEM_X_BLOCK_BASE, 0) \<lparr>mpi_s = - 1, mpi_p = [5, 7, 0]\<rparr> 2
          (esp_mpi_acquire_hardware rsa_hw_init))
     = (None, \<lparr>mpi_s = 1, mpi_p = [5, 7, 0, 0]\<rparr>)
   \<and> limbs_val [5, 7, 0, 0] = limbs_val [5, 7, 0]
   \<and> mpi_words \<lparr>mpi_s = 1, mpi_p = [5, 7, 0, 0]\<rparr>
       = mpi_words \<lparr>mpi_s = - 1, mpi_p = [5, 7, 0]\<rparr>"
proof -
  have rd: "mem_block_to_mpi (\<lambda>k. True) mbedtls_mpi_init (RSA_MEM_X_BLOCK_BASE, 0) 4
       (mpi_to_mem_block (RSA_MEM_X_BLOCK_BASE, 0) \<lparr>mpi_s = - 1, mpi_p = [5, 7, 0]\<rparr> 2
          (esp_mpi_acquire_hardware rsa_hw_init))
     = (None, \<lparr>mpi_s = 1, mpi_p = [5, 7, 0, 0]\<rparr>)"
    by code_simp
  have clean: "\<forall>j. 2 \<le> j \<and> j < 4 \<longrightarrow>
      rsa_mem (esp_mpi_acquire_hardware rsa_hw_init)
        (fst (RSA_MEM_X_BLOCK_BASE, 0::nat)) (snd (RSA_MEM_X_BLOCK_BASE, 0::nat) + j) = 0"
    by (simp add: esp_mpi_acquire_hardware_def)
  have w: "mpi_words \<lparr>mpi_s = - 1, mpi_p = [5, 7, 0]\<rparr> \<le> min 2 4"
    by code_simp
  have t: "limbs_val (mpi_p \<lparr>mpi_s = 1, mpi_p = [5, 7, 0, 0]\<rparr>)
              = limbs_val (mpi_p \<lparr>mpi_s = - 1, mpi_p = [5, 7, 0]\<rparr>)
         \<and> mpi_words \<lparr>mpi_s = 1, mpi_p = [5, 7, 0, 0]\<rparr>
              = mpi_words \<lparr>mpi_s = - 1, mpi_p = [5, 7, 0]\<rparr>"
    by (rule marshalling_round_trip [OF rd, THEN conjunct2, THEN conjunct2, THEN conjunct2,
      rule_format, OF conjI, OF clean w])
  have s1: "mpi_p \<lparr>mpi_s = 1, mpi_p = [5, 7, 0, 0]\<rparr> = [5, 7, 0, 0]"
    and s2: "mpi_p \<lparr>mpi_s = - 1, mpi_p = [5, 7, 0::mbedtls_mpi_uint]\<rparr> = [5, 7, 0]"
    by simp_all
  note t' = t [unfolded s1 s2]
  from rd t' [THEN conjunct1] t' [THEN conjunct2] show ?thesis by (intro conjI)
qed

text \<open>
  A read at a larger width does not zero-extend by itself.  Within one acquisition the
  block first receives three words \<open>9\<close>, then the integer 5 at width 1; read back at
  width 3 the result is \<open>[5, 9, 9]\<close>, whose magnitude and significant word count are not
  those of 5.
\<close>

theorem marshalling_stale_words:
  "mem_block_to_mpi (\<lambda>k. True) mbedtls_mpi_init (RSA_MEM_X_BLOCK_BASE, 0) 3
       (mpi_to_mem_block (RSA_MEM_X_BLOCK_BASE, 0) \<lparr>mpi_s = 1, mpi_p = [5]\<rparr> 1
          (mpi_to_mem_block (RSA_MEM_X_BLOCK_BASE, 0) \<lparr>mpi_s = 1, mpi_p = [9, 9, 9]\<rparr> 3
             (esp_mpi_acquire_hardware rsa_hw_init)))
     = (None, \<lparr>mpi_s = 1, mpi_p = [5, 9, 9]\<rparr>)
   \<and> limbs_val [5, 9, 9] \<noteq> limbs_val [5]
   \<and> mpi_words \<lparr>mpi_s = 1, mpi_p = [5, 9, 9]\<rparr> \<noteq> mpi_words \<lparr>mpi_s = 1, mpi_p = [5]\<rparr>"
proof (intro conjI)
  show "mem_block_to_mpi (\<lambda>k. True) mbedtls_mpi_init (RSA_MEM_X_BLOCK_BASE, 0) 3
       (mpi_to_mem_block (RSA_MEM_X_BLOCK_BASE, 0) \<lparr>mpi_s = 1, mpi_p = [5]\<rparr> 1
          (mpi_to_mem_block (RSA_MEM_X_BLOCK_BASE, 0) \<lparr>mpi_s = 1, mpi_p = [9, 9, 9]\<rparr> 3
             (esp_mpi_acquire_hardware rsa_hw_init)))
     = (None, \<lparr>mpi_s = 1, mpi_p = [5, 9, 9]\<rparr>)"
    by code_simp
  show "limbs_val [5, 9, 9] \<noteq> limbs_val [5]" by simp
  show "mpi_words \<lparr>mpi_s = 1, mpi_p = [5, 9, 9]\<rparr> \<noteq> mpi_words \<lparr>mpi_s = 1, mpi_p = [5]\<rparr>"
    by code_simp
qed

section \<open>Validation of the inputs\<close>

lemma even_unat_word: "even (unat (w :: 32 word)) = (w AND 1 = 0)"
proof -
  have "(w AND 1 = 0) = (w mod 2 = 0)" by (simp add: and_one_eq)
  also have "\<dots> = (unat (w mod 2) = 0)" by (simp add: unat_eq_0)
  also have "\<dots> = (unat w mod 2 = 0)" by (simp add: unat_mod)
  finally show ?thesis by (simp add: even_iff_mod_2_eq_zero)
qed

lemma limb0_even:
  assumes "0 < mpi_val M"
  shows "((mpi_p M ! 0) AND 1 = 0) = even (limbs_val (mpi_p M))"
proof (cases "mpi_p M")
  case Nil
  with assms show ?thesis by (simp add: mpi_val_def)
next
  case (Cons w ws)
  then show ?thesis by (simp add: even_unat_word [symmetric])
qed


lemma cmp_int_0 [simp]:
  "(mbedtls_mpi_cmp_int X 0 \<le> 0) = (mpi_val X \<le> 0)"
  "(mbedtls_mpi_cmp_int X 0 < 0) = (mpi_val X < 0)"
  "(mbedtls_mpi_cmp_int X 0 = 0) = (mpi_val X = 0)"
  by (simp_all add: mbedtls_mpi_cmp_int_def sgn_if)

lemma limbs_val_unit: "0 < n \<Longrightarrow> limbs_val ((replicate n 0)[0 := w]) = unat w"
  by (cases n) simp_all

lemma mbedtls_mpi_lset_1:
  assumes "mpi_p Z \<noteq> [] \<or> can_alloc 1"
  shows "\<exists>Z'. mbedtls_mpi_lset can_alloc Z 1 = (None, Z') \<and> mpi_val Z' = 1"
proof -
  have "1 \<le> length (mpi_p Z) \<or> can_alloc 1" using assms by (cases "mpi_p Z") auto
  then have g: "mbedtls_mpi_grow can_alloc Z 1
      = (None, Z\<lparr>mpi_p := mpi_p Z @ replicate (1 - length (mpi_p Z)) 0\<rparr>)"
    by (intro mbedtls_mpi_grow_ok) (simp_all add: MBEDTLS_MPI_MAX_LIMBS_def)
  show ?thesis
    using g by (simp add: mbedtls_mpi_lset_def mpi_val_def limbs_val_unit)
qed

text \<open>
  Claim C5.  The checks that reject a call come before any use of the accelerator; a
  rejected or degenerate call returns the state of the accelerator as it found it (so
  the peripheral is not acquired) and, when it rejects, \<open>Z\<close> as it found it.
  The modular multiplication returns the not-acceptable error when the common width is
  more than 4096 bits.  The modular exponentiation returns the bad-input error when \<open>M\<close>
  is not positive, or even, or \<open>Y\<close> is negative; with a valid \<open>M\<close> and \<open>Y = 0\<close> it returns what
  setting \<open>Z\<close> to 1 returns, which is success with \<open>Z = 1\<close> whenever \<open>Z\<close> has a limb or one
  limb can be allocated; with a valid \<open>M\<close> and \<open>Y > 0\<close> it returns the not-acceptable error
  when the common width is more than 4096 bits.
\<close>

theorem input_validation:
  "(4096 < max (max (mpi_words M) (mpi_words X)) (mpi_words Y) * 32 \<longrightarrow>
      esp_mpi_mul_mpi_mod can_alloc hw Z X Y M = (Some MBEDTLS_ERR_MPI_NOT_ACCEPTABLE, Z, hw))
   \<and> (mpi_val M \<le> 0 \<or> even (limbs_val (mpi_p M)) \<or> mpi_val Y < 0 \<longrightarrow>
      mbedtls_mpi_exp_mod can_alloc hw Z X Y M Rinv_opt
        = (Some MBEDTLS_ERR_MPI_BAD_INPUT_DATA, Z, Rinv_opt, hw))
   \<and> (0 < mpi_val M \<and> odd (limbs_val (mpi_p M)) \<and> mpi_val Y = 0 \<longrightarrow>
      (\<exists>ret Z'. mbedtls_mpi_exp_mod can_alloc hw Z X Y M Rinv_opt = (ret, Z', Rinv_opt, hw) \<and>
          (ret, Z') = mbedtls_mpi_lset can_alloc Z 1 \<and>
          (mpi_p Z \<noteq> [] \<or> can_alloc 1 \<longrightarrow> ret = None \<and> mpi_val Z' = 1)))
   \<and> (0 < mpi_val M \<and> odd (limbs_val (mpi_p M)) \<and> 0 < mpi_val Y \<and>
        4096 < max (mpi_words M) (max (mpi_words X) (mpi_words Y)) * 32 \<longrightarrow>
      mbedtls_mpi_exp_mod can_alloc hw Z X Y M Rinv_opt
        = (Some MBEDTLS_ERR_MPI_NOT_ACCEPTABLE, Z, Rinv_opt, hw))"
proof (intro conjI impI)
  assume "4096 < max (max (mpi_words M) (mpi_words X)) (mpi_words Y) * 32"
  then show "esp_mpi_mul_mpi_mod can_alloc hw Z X Y M = (Some MBEDTLS_ERR_MPI_NOT_ACCEPTABLE, Z, hw)"
    unfolding esp_mpi_mul_mpi_mod_def Let_def by simp
next
  assume bad: "mpi_val M \<le> 0 \<or> even (limbs_val (mpi_p M)) \<or> mpi_val Y < 0"
  show "mbedtls_mpi_exp_mod can_alloc hw Z X Y M Rinv_opt
        = (Some MBEDTLS_ERR_MPI_BAD_INPUT_DATA, Z, Rinv_opt, hw)"
  proof (cases "mpi_val M \<le> 0")
    case True
    then show ?thesis unfolding mbedtls_mpi_exp_mod_def Let_def by simp
  next
    case False
    then have e: "((mpi_p M ! 0) AND 1 = 0) = even (limbs_val (mpi_p M))"
      by (intro limb0_even) simp
    from bad False show ?thesis unfolding mbedtls_mpi_exp_mod_def Let_def e by auto
  qed
next
  assume a: "0 < mpi_val M \<and> odd (limbs_val (mpi_p M)) \<and> mpi_val Y = 0"
  then have e: "((mpi_p M ! 0) AND 1 = 0) = even (limbs_val (mpi_p M))"
    by (intro limb0_even) simp
  obtain ret Z' where l: "mbedtls_mpi_lset can_alloc Z 1 = (ret, Z')"
    by (cases "mbedtls_mpi_lset can_alloc Z 1")
  have "mbedtls_mpi_exp_mod can_alloc hw Z X Y M Rinv_opt = (ret, Z', Rinv_opt, hw)"
    using a unfolding mbedtls_mpi_exp_mod_def Let_def e by (simp add: l)
  moreover have "ret = None \<and> mpi_val Z' = 1" if "mpi_p Z \<noteq> [] \<or> can_alloc 1"
    using mbedtls_mpi_lset_1 [of Z can_alloc] that l by auto
  ultimately show "\<exists>ret Z'. mbedtls_mpi_exp_mod can_alloc hw Z X Y M Rinv_opt = (ret, Z', Rinv_opt, hw) \<and>
          (ret, Z') = mbedtls_mpi_lset can_alloc Z 1 \<and>
          (mpi_p Z \<noteq> [] \<or> can_alloc 1 \<longrightarrow> ret = None \<and> mpi_val Z' = 1)"
    using l by auto
next
  assume a: "0 < mpi_val M \<and> odd (limbs_val (mpi_p M)) \<and> 0 < mpi_val Y \<and>
        4096 < max (mpi_words M) (max (mpi_words X) (mpi_words Y)) * 32"
  then have e: "((mpi_p M ! 0) AND 1 = 0) = even (limbs_val (mpi_p M))"
    by (intro limb0_even) simp
  show "mbedtls_mpi_exp_mod can_alloc hw Z X Y M Rinv_opt
        = (Some MBEDTLS_ERR_MPI_NOT_ACCEPTABLE, Z, Rinv_opt, hw)"
    using a unfolding mbedtls_mpi_exp_mod_def Let_def e by simp
qed


theorem input_validation_witness:
  "esp_mpi_mul_mpi_mod (\<lambda>k. True) rsa_hw_init mbedtls_mpi_init
       \<lparr>mpi_s = 1, mpi_p = replicate 128 0 @ [1]\<rparr> \<lparr>mpi_s = 1, mpi_p = [3]\<rparr>
       \<lparr>mpi_s = 1, mpi_p = [7]\<rparr>
     = (Some MBEDTLS_ERR_MPI_NOT_ACCEPTABLE, mbedtls_mpi_init, rsa_hw_init)
   \<and> mbedtls_mpi_exp_mod (\<lambda>k. True) rsa_hw_init mbedtls_mpi_init
       \<lparr>mpi_s = 1, mpi_p = [2]\<rparr> \<lparr>mpi_s = 1, mpi_p = [3]\<rparr> \<lparr>mpi_s = 1, mpi_p = [8]\<rparr> None
     = (Some MBEDTLS_ERR_MPI_BAD_INPUT_DATA, mbedtls_mpi_init, None, rsa_hw_init)
   \<and> (\<exists>Z'. mbedtls_mpi_exp_mod (\<lambda>k. True) rsa_hw_init mbedtls_mpi_init
       \<lparr>mpi_s = 1, mpi_p = [2]\<rparr> \<lparr>mpi_s = 1, mpi_p = [0]\<rparr> \<lparr>mpi_s = 1, mpi_p = [7]\<rparr> None
     = (None, Z', None, rsa_hw_init) \<and> mpi_val Z' = 1)
   \<and> mbedtls_mpi_exp_mod (\<lambda>k. True) rsa_hw_init mbedtls_mpi_init
       \<lparr>mpi_s = 1, mpi_p = replicate 128 0 @ [1]\<rparr> \<lparr>mpi_s = 1, mpi_p = [3]\<rparr>
       \<lparr>mpi_s = 1, mpi_p = [7]\<rparr> None
     = (Some MBEDTLS_ERR_MPI_NOT_ACCEPTABLE, mbedtls_mpi_init, None, rsa_hw_init)"
proof -
  let ?X = "\<lparr>mpi_s = 1, mpi_p = replicate 128 0 @ [1]\<rparr>"
  let ?Y = "\<lparr>mpi_s = 1, mpi_p = [3]\<rparr>"
  let ?M = "\<lparr>mpi_s = 1, mpi_p = [7]\<rparr>"
  have wide: "mpi_words ?X = 129" by code_simp
  have small: "mpi_words ?Y = 1" "mpi_words ?M = 1" by code_simp+
  have M7: "0 < mpi_val ?M \<and> odd (limbs_val (mpi_p ?M))" by (simp add: mpi_val_def)
  have a1: "4096 < max (max (mpi_words ?M) (mpi_words ?X)) (mpi_words ?Y) * 32"
    by (simp add: wide small)
  have a2: "mpi_val \<lparr>mpi_s = 1, mpi_p = [8]\<rparr> \<le> 0
      \<or> even (limbs_val (mpi_p \<lparr>mpi_s = 1, mpi_p = [8]\<rparr>)) \<or> mpi_val ?Y < 0"
    by simp
  have a3: "0 < mpi_val ?M \<and> odd (limbs_val (mpi_p ?M)) \<and> mpi_val \<lparr>mpi_s = 1, mpi_p = [0]\<rparr> = 0"
    using M7 by (simp add: mpi_val_def)
  have a4: "0 < mpi_val ?M \<and> odd (limbs_val (mpi_p ?M)) \<and> 0 < mpi_val ?Y \<and>
        4096 < max (mpi_words ?M) (max (mpi_words ?X) (mpi_words ?Y)) * 32"
    using M7 by (simp add: wide small mpi_val_def)
  note iv = input_validation [where can_alloc = "\<lambda>k. True" and hw = rsa_hw_init
      and Z = mbedtls_mpi_init and Rinv_opt = None]
  have w1: "esp_mpi_mul_mpi_mod (\<lambda>k. True) rsa_hw_init mbedtls_mpi_init ?X ?Y ?M
     = (Some MBEDTLS_ERR_MPI_NOT_ACCEPTABLE, mbedtls_mpi_init, rsa_hw_init)"
    using iv [where M = ?M and X = ?X and Y = ?Y] a1 by blast
  have w2: "mbedtls_mpi_exp_mod (\<lambda>k. True) rsa_hw_init mbedtls_mpi_init
       \<lparr>mpi_s = 1, mpi_p = [2]\<rparr> ?Y \<lparr>mpi_s = 1, mpi_p = [8]\<rparr> None
     = (Some MBEDTLS_ERR_MPI_BAD_INPUT_DATA, mbedtls_mpi_init, None, rsa_hw_init)"
    using iv [where M = "\<lparr>mpi_s = 1, mpi_p = [8]\<rparr>" and X = "\<lparr>mpi_s = 1, mpi_p = [2]\<rparr>"
        and Y = ?Y] a2 by blast
  have w3: "\<exists>Z'. mbedtls_mpi_exp_mod (\<lambda>k. True) rsa_hw_init mbedtls_mpi_init
       \<lparr>mpi_s = 1, mpi_p = [2]\<rparr> \<lparr>mpi_s = 1, mpi_p = [0]\<rparr> ?M None
     = (None, Z', None, rsa_hw_init) \<and> mpi_val Z' = 1"
    using iv [where M = ?M and X = "\<lparr>mpi_s = 1, mpi_p = [2]\<rparr>"
        and Y = "\<lparr>mpi_s = 1, mpi_p = [0]\<rparr>"] a3 by blast
  have w4: "mbedtls_mpi_exp_mod (\<lambda>k. True) rsa_hw_init mbedtls_mpi_init ?X ?Y ?M None
     = (Some MBEDTLS_ERR_MPI_NOT_ACCEPTABLE, mbedtls_mpi_init, None, rsa_hw_init)"
    using iv [where M = ?M and X = ?X and Y = ?Y] a4 by blast
  from w1 w2 w3 w4 show ?thesis by blast
qed

section \<open>Registers are not changed by the block operations\<close>

lemma block_write_regs [simp]:
  "RSA_LENGTH_REG (block_write base ws hw) = RSA_LENGTH_REG hw"
  "RSA_M_DASH_REG (block_write base ws hw) = RSA_M_DASH_REG hw"
  "RSA_CONSTANT_TIME_REG (block_write base ws hw) = RSA_CONSTANT_TIME_REG hw"
  "RSA_SEARCH_OPEN_REG (block_write base ws hw) = RSA_SEARCH_OPEN_REG hw"
  "RSA_SEARCH_POS_REG (block_write base ws hw) = RSA_SEARCH_POS_REG hw"
  "rsa_powered (block_write base ws hw) = rsa_powered hw"
  "rsa_acquired (block_write base ws hw) = rsa_acquired hw"
  by (simp_all add: block_write_eq)

lemma mpi_to_mem_block_regs [simp]:
  "RSA_LENGTH_REG (mpi_to_mem_block base X n hw) = RSA_LENGTH_REG hw"
  "RSA_M_DASH_REG (mpi_to_mem_block base X n hw) = RSA_M_DASH_REG hw"
  "RSA_CONSTANT_TIME_REG (mpi_to_mem_block base X n hw) = RSA_CONSTANT_TIME_REG hw"
  "RSA_SEARCH_OPEN_REG (mpi_to_mem_block base X n hw) = RSA_SEARCH_OPEN_REG hw"
  "RSA_SEARCH_POS_REG (mpi_to_mem_block base X n hw) = RSA_SEARCH_POS_REG hw"
  "rsa_powered (mpi_to_mem_block base X n hw) = rsa_powered hw"
  "rsa_acquired (mpi_to_mem_block base X n hw) = rsa_acquired hw"
  by (simp_all add: mpi_to_mem_block_eq)

lemma start_op_regs [simp]:
  "RSA_LENGTH_REG (start_op op_reg hw) = RSA_LENGTH_REG hw"
  "RSA_M_DASH_REG (start_op op_reg hw) = RSA_M_DASH_REG hw"
  "RSA_CONSTANT_TIME_REG (start_op op_reg hw) = RSA_CONSTANT_TIME_REG hw"
  "RSA_SEARCH_OPEN_REG (start_op op_reg hw) = RSA_SEARCH_OPEN_REG hw"
  "RSA_SEARCH_POS_REG (start_op op_reg hw) = RSA_SEARCH_POS_REG hw"
  "rsa_powered (start_op op_reg hw) = rsa_powered hw"
  "rsa_acquired (start_op op_reg hw) = rsa_acquired hw"
  by (cases op_reg; simp add: start_op_def hw_mod_mult_def hw_mod_exp_def hw_mult_def Let_def)+

section \<open>Bit length\<close>

lemma bitlen_le: "mbedtls_mpi_bitlen X \<le> 32 * mpi_words X"
proof (cases "mpi_words X")
  case 0
  then show ?thesis by (simp add: mbedtls_mpi_bitlen_def)
next
  case (Suc i)
  have "unat (mpi_p X ! i) < 2 ^ 32" using unsigned_less [of "mpi_p X ! i"] by simp
  then have "nat_bitlen (unat (mpi_p X ! i)) \<le> 32" by (rule nat_bitlen_le)
  with Suc show ?thesis by (simp add: mbedtls_mpi_bitlen_def del: nat_bitlen.simps)
qed

lemma bitlen_0_iff_words: "(mbedtls_mpi_bitlen X = 0) = (mpi_words X = 0)"
proof (cases "mpi_words X")
  case 0
  then show ?thesis by (simp add: mbedtls_mpi_bitlen_def)
next
  case (Suc i)
  then have "mpi_p X ! i \<noteq> 0" using mpi_words_top_nonzero [of X] by simp
  then have "0 < unat (mpi_p X ! i)" by (simp add: unat_gt_0)
  then have "0 < nat_bitlen (unat (mpi_p X ! i))" by (rule nat_bitlen_pos)
  with Suc show ?thesis by (simp add: mbedtls_mpi_bitlen_def del: nat_bitlen.simps)
qed

lemma limbs_val_0_nth: "limbs_val xs = 0 \<Longrightarrow> i < length xs \<Longrightarrow> xs ! i = 0"
proof (induction xs arbitrary: i)
  case Nil
  then show ?case by simp
next
  case (Cons w ws)
  then show ?case by (cases i) (auto simp: unat_eq_0)
qed

lemma words_0_iff_val: "(mpi_words X = 0) = (limbs_val (mpi_p X) = 0)"
proof
  assume "mpi_words X = 0"
  then show "limbs_val (mpi_p X) = 0" using limbs_val_lt_words [of X] by simp
next
  assume z: "limbs_val (mpi_p X) = 0"
  show "mpi_words X = 0"
  proof (rule ccontr)
    assume "mpi_words X \<noteq> 0"
    then have pos: "0 < mpi_words X" by simp
    then have "mpi_words X - 1 < length (mpi_p X)" using mpi_words_le_length [of X] by simp
    from limbs_val_0_nth [OF z this] mpi_words_top_nonzero [OF pos] show False by simp
  qed
qed

section \<open>Montgomery arithmetic\<close>

lemma redc_dvd:
  fixes b :: nat
  assumes "(M * m' + 1) mod b = 0"
  shows "b dvd T + ((T mod b) * m' mod b) * M"
proof -
  have "((T mod b) * m' mod b * M) mod b = (T * m' * M) mod b"
    by (metis mod_mult_left_eq)
  then have "(T + ((T mod b) * m' mod b) * M) mod b = (T + T * m' * M) mod b"
    by (metis mod_add_right_eq)
  also have "T + T * m' * M = T * (M * m' + 1)" by (simp add: algebra_simps)
  also have "(T * (M * m' + 1)) mod b = (T * ((M * m' + 1) mod b)) mod b"
    by (simp only: mod_mult_right_eq)
  also have "\<dots> = 0" by (simp only: assms) simp
  finally show ?thesis by (simp only: dvd_eq_mod_eq_0)
qed

lemma redc_step_exact:
  assumes "(M * m' + 1) mod 2 ^ 32 = 0"
  shows "redc_step m' M T * 2 ^ 32 = T + ((T mod 2 ^ 32) * m' mod 2 ^ 32) * M"
  unfolding redc_step_def using redc_dvd [OF assms, of T] by (rule dvd_div_mult_self)

lemma redc_step_cong:
  assumes "(M * m' + 1) mod 2 ^ 32 = 0"
  shows "(redc_step m' M T * 2 ^ 32) mod M = T mod M"
  by (simp only: redc_step_exact [OF assms]) simp

lemma redc_cong:
  assumes "(M * m' + 1) mod 2 ^ 32 = 0"
  shows "((redc_step m' M ^^ n) T * 2 ^ (32 * n)) mod M = T mod M"
proof (induction n arbitrary: T)
  case 0
  show ?case by simp
next
  case (Suc n)
  have "((redc_step m' M ^^ Suc n) T * 2 ^ (32 * Suc n)) mod M
      = ((redc_step m' M ^^ n) (redc_step m' M T) * 2 ^ (32 * n) * 2 ^ 32) mod M"
    by (simp add: funpow_swap1 power_add mult_ac)
  also have "\<dots> = (((redc_step m' M ^^ n) (redc_step m' M T) * 2 ^ (32 * n)) mod M * 2 ^ 32) mod M"
    by (simp only: mod_mult_left_eq)
  also have "\<dots> = (redc_step m' M T * 2 ^ 32) mod M"
    by (simp only: Suc.IH mod_mult_left_eq)
  also have "\<dots> = T mod M" by (rule redc_step_cong [OF assms])
  finally show ?case .
qed

lemma mont_mul_cong:
  assumes "(M * m' + 1) mod 2 ^ 32 = 0"
  shows "(mont_mul n m' M A B * 2 ^ (32 * n)) mod M = (A * B) mod M"
  unfolding mont_mul_def by (simp only: mod_mult_left_eq redc_cong [OF assms])

lemma mont_mul_lt: "0 < M \<Longrightarrow> mont_mul n m' M A B < M"
  by (simp add: mont_mul_def)

lemma mod_mult_cancel_coprime:
  fixes a c R M :: nat
  assumes "coprime R M" "(a * R) mod M = (c * R) mod M"
  shows "a mod M = c mod M"
proof -
  have "int (a * R) mod int M = int (c * R) mod int M"
    using assms(2) by (simp only: zmod_int [symmetric])
  then have "int M dvd int (a * R) - int (c * R)" by (simp only: mod_eq_dvd_iff)
  then have "int M dvd (int a - int c) * int R" by (simp add: algebra_simps)
  moreover have "coprime (int M) (int R)" using assms(1) by (simp add: coprime_commute)
  ultimately have "int M dvd int a - int c" by (simp add: coprime_dvd_mult_left_iff)
  then have "int a mod int M = int c mod int M" by (simp only: mod_eq_dvd_iff)
  then show ?thesis by (simp only: zmod_int [symmetric] of_nat_eq_iff)
qed

lemma coprime_pow2_odd: "odd (M :: nat) \<Longrightarrow> coprime (2 ^ k) M"
  by (simp add: coprime_left_2_iff_odd)

text \<open>The value the modular multiplication leaves.\<close>

lemma mont_mod_mult:
  assumes m': "(M * m' + 1) mod 2 ^ 32 = 0" and odd: "odd M"
    and rinv: "rinv mod M = (2 ^ (32 * n) * 2 ^ (32 * n)) mod M"
  shows "mont_mul n m' M (mont_mul n m' M x y) rinv = (x * y) mod M"
proof -
  let ?R = "2 ^ (32 * n) :: nat"
  let ?t = "mont_mul n m' M x y"
  let ?z = "mont_mul n m' M ?t rinv"
  have M0: "0 < M" using odd by (cases M) auto
  have cop: "coprime ?R M" using odd by (rule coprime_pow2_odd)
  have "(?z * ?R) mod M = (?t * rinv) mod M" by (rule mont_mul_cong [OF m'])
  also have "\<dots> = (?t * (rinv mod M)) mod M" by (simp only: mod_mult_right_eq)
  also have "\<dots> = (?t * (?R * ?R)) mod M" by (simp only: rinv mod_mult_right_eq)
  also have "\<dots> = ((?t * ?R) mod M * ?R) mod M" by (simp only: mod_mult_left_eq mult.assoc)
  also have "\<dots> = ((x * y) mod M * ?R) mod M" by (simp only: mont_mul_cong [OF m'])
  also have "\<dots> = ((x * y) * ?R) mod M" by (simp only: mod_mult_left_eq)
  finally have "?z mod M = (x * y) mod M" by (rule mod_mult_cancel_coprime [OF cop])
  moreover have "?z < M" using M0 by (rule mont_mul_lt)
  ultimately show ?thesis by simp
qed


lemma mont_residue_mult:
  assumes m': "(M * m' + 1) mod 2 ^ 32 = 0" and odd: "odd M"
    and a: "a mod M = (u * 2 ^ (32 * n)) mod M" and c: "c mod M = (v * 2 ^ (32 * n)) mod M"
  shows "mont_mul n m' M a c mod M = (u * v * 2 ^ (32 * n)) mod M"
proof -
  let ?R = "2 ^ (32 * n) :: nat"
  have cop: "coprime ?R M" using odd by (rule coprime_pow2_odd)
  have "(mont_mul n m' M a c * ?R) mod M = (a * c) mod M" by (rule mont_mul_cong [OF m'])
  also have "\<dots> = ((a mod M) * (c mod M)) mod M" by (simp only: mod_mult_eq)
  also have "\<dots> = ((u * ?R) * (v * ?R)) mod M" by (simp only: a c mod_mult_eq)
  also have "(u * ?R) * (v * ?R) = (u * v * ?R) * ?R" by (simp add: mult_ac)
  finally show ?thesis by (rule mod_mult_cancel_coprime [OF cop])
qed

lemma mont_exp_loop_cong:
  assumes m': "(M * m' + 1) mod 2 ^ 32 = 0" and odd: "odd M"
    and xbar: "xbar mod M = (x * 2 ^ (32 * n)) mod M"
    and acc: "acc mod M = (x ^ t * 2 ^ (32 * n)) mod M"
  shows "mont_exp_loop n m' M xbar e k acc mod M
           = (x ^ (t * 2 ^ k + e mod 2 ^ k) * 2 ^ (32 * n)) mod M"
  using acc
proof (induction k arbitrary: acc t)
  case 0
  then show ?case by simp
next
  case (Suc k)
  let ?a = "mont_mul n m' M acc acc"
  let ?acc' = "if bit e k then mont_mul n m' M ?a xbar else ?a"
  let ?t' = "2 * t + of_bool (bit e k)"
  have a: "?a mod M = (x ^ (2 * t) * 2 ^ (32 * n)) mod M"
    using mont_residue_mult [OF m' odd Suc.prems Suc.prems]
    by (simp add: power_add mult_2)
  have "mont_mul n m' M ?a xbar mod M = (x ^ (2 * t + 1) * 2 ^ (32 * n)) mod M"
    using mont_residue_mult [OF m' odd a xbar] by (simp add: mult_ac)
  with a have acc': "?acc' mod M = (x ^ ?t' * 2 ^ (32 * n)) mod M" by simp
  have e: "e mod 2 ^ Suc k = 2 ^ k * of_bool (bit e k) + e mod 2 ^ k"
    using take_bit_Suc_from_most [of k e] by (simp add: take_bit_eq_mod)
  have "?t' * 2 ^ k + e mod 2 ^ k = t * 2 ^ Suc k + e mod 2 ^ Suc k"
    by (simp only: e) (simp add: algebra_simps)
  with Suc.IH [OF acc'] show ?case by (simp add: Let_def)
qed

text \<open>The value the modular exponentiation leaves, for \<open>k\<close> exponent bits.\<close>

lemma mont_mod_exp:
  assumes m': "(M * m' + 1) mod 2 ^ 32 = 0" and odd: "odd M"
    and rinv: "rinv mod M = (2 ^ (32 * n) * 2 ^ (32 * n)) mod M"
  shows "mont_mul n m' M
           (mont_exp_loop n m' M (mont_mul n m' M x rinv) e k (mont_mul n m' M 1 rinv)) 1
         = (x ^ (e mod 2 ^ k)) mod M"
proof -
  let ?R = "2 ^ (32 * n) :: nat"
  let ?xbar = "mont_mul n m' M x rinv"
  let ?one = "mont_mul n m' M 1 rinv"
  let ?acc = "mont_exp_loop n m' M ?xbar e k ?one"
  let ?z = "mont_mul n m' M ?acc 1"
  have M0: "0 < M" using odd by (cases M) auto
  have cop: "coprime ?R M" using odd by (rule coprime_pow2_odd)
  have res: "mont_mul n m' M u rinv mod M = (u * ?R) mod M" for u
  proof -
    have "(mont_mul n m' M u rinv * ?R) mod M = (u * rinv) mod M" by (rule mont_mul_cong [OF m'])
    also have "\<dots> = (u * (rinv mod M)) mod M" by (simp only: mod_mult_right_eq)
    also have "\<dots> = (u * (?R * ?R)) mod M" by (simp only: rinv mod_mult_right_eq)
    also have "u * (?R * ?R) = (u * ?R) * ?R" by (simp add: mult_ac)
    finally show ?thesis by (rule mod_mult_cancel_coprime [OF cop])
  qed
  have one: "?one mod M = (x ^ 0 * ?R) mod M" using res [of 1] by simp
  have "?acc mod M = (x ^ (0 * 2 ^ k + e mod 2 ^ k) * ?R) mod M"
    by (rule mont_exp_loop_cong [OF m' odd res one])
  then have acc: "?acc mod M = (x ^ (e mod 2 ^ k) * ?R) mod M" by simp
  have "(?z * ?R) mod M = (?acc * 1) mod M" by (rule mont_mul_cong [OF m'])
  also have "\<dots> = (x ^ (e mod 2 ^ k) * ?R) mod M" using acc by simp
  finally have "?z mod M = (x ^ (e mod 2 ^ k)) mod M" by (rule mod_mult_cancel_coprime [OF cop])
  moreover have "?z < M" using M0 by (rule mont_mul_lt)
  ultimately show ?thesis by simp
qed

section \<open>The Montgomery residue constant\<close>

lemma nat_bitlen_gt: "v < 2 ^ nat_bitlen v"
proof (induction v rule: nat_bitlen.induct)
  case (1 v)
  show ?case
  proof (cases "v = 0")
    case True
    then show ?thesis by simp
  next
    case False
    then have "v div 2 < 2 ^ nat_bitlen (v div 2)" by (rule "1.IH")
    then have "v < 2 * 2 ^ nat_bitlen (v div 2)" by simp
    with False show ?thesis by (simp del: nat_bitlen.simps add: nat_bitlen.simps [of v])
  qed
qed

lemma bits_to_words_le: "b \<le> 32 * k \<Longrightarrow> bits_to_words b \<le> k"
  by (simp add: bits_to_words_def) 

lemma bits_to_words_ge: "b \<le> 32 * bits_to_words b"
  by (simp add: bits_to_words_def)

lemma words_needed_le: "v < 2 ^ (32 * k) \<Longrightarrow> bits_to_words (nat_bitlen v) \<le> k"
  by (intro bits_to_words_le nat_bitlen_le)

lemma words_needed_fit: "v < 2 ^ (32 * bits_to_words (nat_bitlen v))"
proof -
  have "(2::nat) ^ nat_bitlen v \<le> 2 ^ (32 * bits_to_words (nat_bitlen v))"
    by (intro power_increasing bits_to_words_ge) simp
  with nat_bitlen_gt [of v] show ?thesis by (rule order_less_le_trans)
qed

lemma limbs_val_update_zero:
  "i < k \<Longrightarrow> limbs_val ((replicate k 0)[i := w]) = 2 ^ (32 * i) * unat w"
proof (induction k arbitrary: i)
  case 0
  then show ?case by simp
next
  case (Suc k)
  show ?case
  proof (cases i)
    case 0
    then show ?thesis by simp
  next
    case (Suc j)
    with Suc.prems Suc.IH [of j] show ?thesis by (simp add: power_add)
  qed
qed

lemma mpi_assign_ok:
  assumes "need \<le> MBEDTLS_MPI_MAX_LIMBS" "need \<le> length (mpi_p X) \<or> can_alloc need"
  shows "mpi_assign can_alloc X need sg v
           = (None, \<lparr>mpi_s = sg, mpi_p = limbs_of_nat (max need (length (mpi_p X))) v\<rparr>)"
proof -
  have "length (mpi_p X) + (need - length (mpi_p X)) = max need (length (mpi_p X))" by arith
  then show ?thesis
    using assms by (simp add: mpi_assign_def mbedtls_mpi_grow_ok)
qed

lemma set_bit_init:
  assumes "2 * n + 1 \<le> MBEDTLS_MPI_MAX_LIMBS" "can_alloc (2 * n + 1)"
  shows "mbedtls_mpi_set_bit can_alloc mbedtls_mpi_init (n * 32 * 2) 1
           = (None, \<lparr>mpi_s = 1, mpi_p = (replicate (2 * n + 1) 0)[2 * n := 1]\<rparr>)"
proof -
  have off: "n * 32 * 2 div 32 = 2 * n" "n * 32 * 2 mod 32 = 0" by simp_all
  have g: "mbedtls_mpi_grow can_alloc mbedtls_mpi_init (2 * n + 1)
      = (None, \<lparr>mpi_s = 1, mpi_p = replicate (2 * n + 1) 0\<rparr>)"
    using assms mbedtls_mpi_grow_ok [of "2 * n + 1" mbedtls_mpi_init can_alloc]
    by (simp add: mbedtls_mpi_init_def del: replicate.simps)
  have nth0: "(replicate (2 * n + 1) 0 :: mbedtls_mpi_uint list) ! (2 * n) = 0"
    by (simp del: replicate.simps)
  show ?thesis
    unfolding mbedtls_mpi_set_bit_def Let_def off
    using g by (simp add: mbedtls_mpi_init_def nth0 del: replicate.simps)
qed

lemma calculate_rinv_ok:
  assumes M: "mpi_s M = 1" "0 < limbs_val (mpi_p M)"
    and n: "mpi_words M \<le> n" "n \<le> 128"
    and alloc: "can_alloc (2 * n + 1)"
      "can_alloc (max 1 (bits_to_words (nat_bitlen (2 ^ (64 * n) mod limbs_val (mpi_p M)))))"
  shows "\<exists>Rinv. calculate_rinv can_alloc mbedtls_mpi_init M n = (None, Rinv)
           \<and> limbs_val (mpi_p Rinv) = 2 ^ (64 * n) mod limbs_val (mpi_p M)"
proof -
  define m where "m = limbs_val (mpi_p M)"
  define v where "v = 2 ^ (64 * n) mod m"
  define w where "w = bits_to_words (nat_bitlen v)"
  define need where "need = max 1 w"
  let ?RR = "\<lparr>mpi_s = 1, mpi_p = (replicate (2 * n + 1) 0)[2 * n := 1]\<rparr>"
  have sb: "mbedtls_mpi_set_bit can_alloc mbedtls_mpi_init (n * 32 * 2) 1 = (None, ?RR)"
    using n alloc(1) by (intro set_bit_init) (simp_all add: MBEDTLS_MPI_MAX_LIMBS_def)
  have RR: "mpi_val ?RR = 2 ^ (64 * n)"
    by (simp add: mpi_val_def limbs_val_update_zero del: replicate.simps)
  have Mv: "mpi_val M = int m" using M by (simp add: mpi_val_def m_def)
  have m0: "0 < m" using M(2) by (simp add: m_def)
  have "nat (2 ^ (64 * n) mod int m) = 2 ^ (64 * n) mod m"
    by (simp add: nat_mod_distrib nat_power_eq)
  then have v: "nat (mpi_val ?RR mod mpi_val M) = v" by (simp only: RR Mv v_def)
  have "m < 2 ^ (32 * n)" unfolding m_def using lt_pow_mono [OF limbs_val_lt_words n(1)] .
  moreover have "v < m" unfolding v_def using m0 by (rule mod_less_divisor)
  ultimately have "v < 2 ^ (32 * n)" by (rule order_less_trans [rotated])
  then have "w \<le> n" unfolding w_def by (rule words_needed_le)
  then have need: "need \<le> MBEDTLS_MPI_MAX_LIMBS"
    using n(2) by (simp add: need_def MBEDTLS_MPI_MAX_LIMBS_def)
  have ca: "can_alloc need" using alloc(2) by (simp only: need_def w_def v_def m_def)
  have as: "mpi_assign can_alloc mbedtls_mpi_init need 1 v
              = (None, \<lparr>mpi_s = 1, mpi_p = limbs_of_nat need v\<rparr>)"
    using mpi_assign_ok [OF need, of mbedtls_mpi_init can_alloc 1 v] ca
    by (simp add: mbedtls_mpi_init_def)
  have "w \<le> need" by (simp add: need_def)
  then have fit: "v < 2 ^ (32 * need)"
    using lt_pow_mono [OF words_needed_fit [of v]] by (simp only: w_def)
  have c1: "\<not> mbedtls_mpi_cmp_int M 0 < 0" using m0 by (simp add: Mv)
  have c2: "mbedtls_mpi_cmp_int M 0 \<noteq> 0" using m0 by (simp add: Mv)
  have "mbedtls_mpi_mod_mpi can_alloc mbedtls_mpi_init ?RR M
          = mpi_assign can_alloc mbedtls_mpi_init need 1 v"
    by (simp only: mbedtls_mpi_mod_mpi_def Let_def c1 c2 if_False v need_def w_def)
  then have "calculate_rinv can_alloc mbedtls_mpi_init M n
          = (None, \<lparr>mpi_s = 1, mpi_p = limbs_of_nat need v\<rparr>)"
    unfolding calculate_rinv_def Let_def sb by (simp add: as)
  moreover have "limbs_val (limbs_of_nat need v) = v"
    using fit by (simp add: limbs_val_limbs_of_nat)
  ultimately show ?thesis by (simp add: v_def m_def)
qed


section \<open>Reading the blocks of a loaded accelerator\<close>

lemma block_read_reg_update [simp]:
  "block_read (RSA_LENGTH_REG_update f1 hw) base n = block_read hw base n"
  "block_read (RSA_M_DASH_REG_update f1 hw) base n = block_read hw base n"
  "block_read (RSA_CONSTANT_TIME_REG_update f1 hw) base n = block_read hw base n"
  "block_read (RSA_SEARCH_OPEN_REG_update f1 hw) base n = block_read hw base n"
  "block_read (RSA_SEARCH_POS_REG_update f1 hw) base n = block_read hw base n"
  "block_read (rsa_powered_update f2 hw) base n = block_read hw base n"
  "block_read (rsa_acquired_update f3 hw) base n = block_read hw base n"
  by (simp_all add: block_read_def mem_read_def)

lemma block_read_mpi_to_mem_block_other [simp]:
  "fst base \<noteq> fst base' \<Longrightarrow>
     block_read (mpi_to_mem_block base' X n' hw) base n = block_read hw base n"
  by (simp add: block_read_def mem_read_def mpi_to_mem_block_eq)

lemma block_read_block_write_other [simp]:
  "fst base \<noteq> fst base' \<Longrightarrow>
     block_read (block_write base' ws hw) base n = block_read hw base n"
  by (simp add: block_read_def mem_read_def block_write_eq)

lemma block_read_block_write_take:
  "k \<le> length ws \<Longrightarrow> block_read (block_write base ws hw) base k = take k ws"
  by (auto simp: block_read_def mem_read_def block_write_eq intro!: nth_equalityI)

lemma take_limbs_of_nat: "k \<le> n \<Longrightarrow> take k (limbs_of_nat n v) = limbs_of_nat k v"
proof (induction k arbitrary: n v)
  case 0
  show ?case by simp
next
  case (Suc k)
  then obtain n' where "n = Suc n'" "k \<le> n'" by (cases n) auto
  with Suc.IH [of n' "v div 2 ^ 32"] show ?case by simp
qed

lemma unat_length_reg:
  assumes "1 \<le> n" "n \<le> 4096"
  shows "unat (of_nat n - 1 :: 32 word) + 1 = n"
proof -
  have u: "unat (of_nat n :: 32 word) = n" using assms(2) by (simp add: unat_of_nat)
  then have "(of_nat n :: 32 word) \<noteq> 0" using assms(1) by auto
  then show ?thesis using u assms(1) by (simp add: unat_minus_one)
qed

lemma marshalled_val:
  "mpi_words X \<le> n \<Longrightarrow>
     limbs_val (block_read (mpi_to_mem_block base X n hw) base n) = limbs_val (mpi_p X)"
  by (simp add: limbs_val_append limbs_val_take_words)

section \<open>What the operations leave in the result block\<close>

lemma hw_mod_mult_result:
  assumes len: "unat (RSA_LENGTH_REG hw) + 1 = n"
    and blocks: "limbs_val (block_read hw (RSA_MEM_M_BLOCK_BASE, 0) n) = m"
      "limbs_val (block_read hw (RSA_MEM_RB_BLOCK_BASE, 0) n) = rinv"
      "limbs_val (block_read hw (RSA_MEM_X_BLOCK_BASE, 0) n) = x"
      "limbs_val (block_read hw (RSA_MEM_Y_BLOCK_BASE, 0) n) = y"
    and m': "(m * unat (RSA_M_DASH_REG hw) + 1) mod 2 ^ 32 = 0" and odd: "odd m"
    and rinv: "rinv mod m = (2 ^ (32 * n) * 2 ^ (32 * n)) mod m"
  shows "hw_mod_mult hw
           = block_write (RSA_MEM_Z_BLOCK_BASE, 0) (limbs_of_nat n ((x * y) mod m)) hw"
  unfolding hw_mod_mult_def Let_def len blocks
  by (simp only: mont_mod_mult [OF m' odd rinv])

lemma hw_mod_exp_result:
  assumes len: "unat (RSA_LENGTH_REG hw) + 1 = n"
    and blocks: "limbs_val (block_read hw (RSA_MEM_M_BLOCK_BASE, 0) n) = m"
      "limbs_val (block_read hw (RSA_MEM_RB_BLOCK_BASE, 0) n) = rinv"
      "limbs_val (block_read hw (RSA_MEM_X_BLOCK_BASE, 0) n) = x"
      "limbs_val (block_read hw (RSA_MEM_Y_BLOCK_BASE, 0) n) = y"
    and search: "bit (RSA_SEARCH_OPEN_REG hw) 0" "unat (RSA_SEARCH_POS_REG hw) + 1 = k"
    and m': "(m * unat (RSA_M_DASH_REG hw) + 1) mod 2 ^ 32 = 0" and odd: "odd m"
    and rinv: "rinv mod m = (2 ^ (32 * n) * 2 ^ (32 * n)) mod m"
  shows "hw_mod_exp hw
           = block_write (RSA_MEM_Z_BLOCK_BASE, 0) (limbs_of_nat n ((x ^ (y mod 2 ^ k)) mod m)) hw"
  unfolding hw_mod_exp_def Let_def len blocks
  by (simp only: search if_True mont_mod_exp [OF m' odd rinv])

lemma hw_mult_result:
  assumes len: "(unat (RSA_LENGTH_REG hw) + 1) div 2 = n"
    and blocks: "limbs_val (block_read hw (RSA_MEM_X_BLOCK_BASE, 0) n) = x"
      "limbs_val (block_read hw (RSA_MEM_Z_BLOCK_BASE, n) n) = y"
  shows "hw_mult hw = block_write (RSA_MEM_Z_BLOCK_BASE, 0) (limbs_of_nat (2 * n) (x * y)) hw"
  unfolding hw_mult_def Let_def len blocks by (rule refl)


section \<open>The modular multiplication as a whole\<close>

lemma mod_pred_Suc:
  fixes a b :: nat
  assumes "0 < b" "a mod b = b - 1"
  shows "(a + 1) mod b = 0"
  using assms by (simp add: mod_Suc)

lemma modular_inverse_mont:
  assumes "odd (limbs_val (mpi_p M))"
  shows "(limbs_val (mpi_p M) * unat (modular_inverse M) + 1) mod 2 ^ 32 = 0"
proof (cases "mpi_p M")
  case Nil
  with assms show ?thesis by simp
next
  case (Cons w ws)
  then have ow: "odd (unat w)" using assms by simp
  define N' where "N' = unat (modular_inverse M)"
  have "(unat w * N') mod 2 ^ 32 = 2 ^ 32 - 1"
    unfolding N'_def using modular_inverse_word [OF Cons ow] by blast
  moreover have "(limbs_val (mpi_p M) * N') mod 2 ^ 32 = (unat w * N') mod 2 ^ 32"
  proof -
    have "limbs_val (mpi_p M) * N' = unat w * N' + 2 ^ 32 * (limbs_val ws * N')"
      by (simp add: Cons algebra_simps)
    then show ?thesis by (simp only: mod_mult_self2)
  qed
  ultimately have "(limbs_val (mpi_p M) * N') mod 2 ^ 32 = 2 ^ 32 - 1" by (rule trans [rotated])
  then show ?thesis unfolding N'_def [symmetric] by (intro mod_pred_Suc) simp_all
qed

lemma esp_mpi_mul_mpi_mod_run:
  assumes M: "mpi_s M = 1" "odd (limbs_val (mpi_p M))"
    and n: "n = max (max (mpi_words M) (mpi_words X)) (mpi_words Y)" "n \<le> 128"
    and alloc: "can_alloc (2 * n + 1)"
      "can_alloc (max 1 (bits_to_words (nat_bitlen (2 ^ (64 * n) mod limbs_val (mpi_p M)))))"
  shows "\<exists>hw'. esp_mpi_mul_mpi_mod can_alloc hw Z X Y M
             = (None, snd (mem_block_to_mpi can_alloc Z (RSA_MEM_Z_BLOCK_BASE, 0) (mpi_words M) hw'),
                esp_mpi_release_hardware hw')
           \<and> block_read hw' (RSA_MEM_Z_BLOCK_BASE, 0) (mpi_words M)
               = limbs_of_nat (mpi_words M)
                   ((limbs_val (mpi_p X) * limbs_val (mpi_p Y)) mod limbs_val (mpi_p M))
           \<and> rsa_acquired hw' = Suc (rsa_acquired hw)
           \<and> RSA_SEARCH_POS_REG hw' = of_nat (mbedtls_mpi_bitlen Y) - 1"
proof -
  define m where "m = limbs_val (mpi_p M)"
  define x where "x = limbs_val (mpi_p X)"
  define y where "y = limbs_val (mpi_p Y)"
  have m0: "0 < m" using M(2) unfolding m_def by (cases "limbs_val (mpi_p M)") auto
  have wM: "mpi_words M \<le> n" and wX: "mpi_words X \<le> n" and wY: "mpi_words Y \<le> n"
    unfolding n(1) by simp_all
  have "mpi_words M \<noteq> 0" using m0 words_0_iff_val [of M] by (simp add: m_def)
  then have n1: "1 \<le> n" using wM by simp
  have width: "\<not> 4096 < n * 32" using n(2) by simp
  obtain Rinv where c: "calculate_rinv can_alloc mbedtls_mpi_init M n = (None, Rinv)"
    and rv: "limbs_val (mpi_p Rinv) = 2 ^ (64 * n) mod m"
    unfolding m_def using calculate_rinv_ok [OF M(1) m0 [unfolded m_def] wM n(2) alloc] by blast
  have "2 ^ (64 * n) mod m < m" using m0 by (rule mod_less_divisor)
  moreover have "m < 2 ^ (32 * n)" unfolding m_def by (rule lt_pow_mono [OF limbs_val_lt_words wM])
  ultimately have "limbs_val (mpi_p Rinv) < 2 ^ (32 * n)" unfolding rv by (rule order_less_trans)
  then have rt: "limbs_val (take n (mpi_p Rinv)) = limbs_val (mpi_p Rinv)"
    by (simp add: limbs_val_take)
  define hw10 where "hw10 =
    (mpi_to_mem_block (RSA_MEM_Y_BLOCK_BASE, 0) Y n
      (mpi_to_mem_block (RSA_MEM_X_BLOCK_BASE, 0) X n
        (mpi_to_mem_block (RSA_MEM_RB_BLOCK_BASE, 0) Rinv n
          (mpi_to_mem_block (RSA_MEM_M_BLOCK_BASE, 0) M n
            ((esp_mpi_acquire_hardware hw)
               \<lparr>RSA_LENGTH_REG := of_nat n - 1, RSA_M_DASH_REG := modular_inverse M\<rparr>)))))
      \<lparr>RSA_CONSTANT_TIME_REG := 0, RSA_SEARCH_OPEN_REG := 1,
        RSA_SEARCH_POS_REG := of_nat (mbedtls_mpi_bitlen Y) - 1\<rparr>"
  define hw13 where "hw13 =
    (wait_op_complete RSA_MOD_MULT_START_REG (start_op RSA_MOD_MULT_START_REG hw10))
      \<lparr>RSA_SEARCH_OPEN_REG := 1\<rparr>"
  have run: "esp_mpi_mul_mpi_mod can_alloc hw Z X Y M
      = (None, snd (mem_block_to_mpi can_alloc Z (RSA_MEM_Z_BLOCK_BASE, 0) (mpi_words M) hw13),
         esp_mpi_release_hardware hw13)"
    unfolding esp_mpi_mul_mpi_mod_def Let_def n(1) [symmetric]
    by (simp only: width if_False c prod.case option.case hw13_def hw10_def rsa_hw.update_convs)
  have len: "unat (RSA_LENGTH_REG hw10) + 1 = n"
    using unat_length_reg [of n] n1 n(2) by (simp add: hw10_def)
  have bM: "limbs_val (block_read hw10 (RSA_MEM_M_BLOCK_BASE, 0) n) = m"
    unfolding hw10_def m_def using wM by (simp add: limbs_val_append limbs_val_take_words)
  have bR: "limbs_val (block_read hw10 (RSA_MEM_RB_BLOCK_BASE, 0) n) = limbs_val (mpi_p Rinv)"
    unfolding hw10_def by (simp add: limbs_val_append rt)
  have bX: "limbs_val (block_read hw10 (RSA_MEM_X_BLOCK_BASE, 0) n) = x"
    unfolding hw10_def x_def using wX by (simp add: limbs_val_append limbs_val_take_words)
  have bY: "limbs_val (block_read hw10 (RSA_MEM_Y_BLOCK_BASE, 0) n) = y"
    unfolding hw10_def y_def using wY by (simp add: limbs_val_append limbs_val_take_words)
  have m': "(m * unat (RSA_M_DASH_REG hw10) + 1) mod 2 ^ 32 = 0"
    using modular_inverse_mont [OF M(2)] by (simp add: hw10_def m_def)
  have "(2::nat) ^ (64 * n) = 2 ^ (32 * n) * 2 ^ (32 * n)"
    by (simp add: power_add [symmetric])
  then have rinv: "limbs_val (mpi_p Rinv) mod m = (2 ^ (32 * n) * 2 ^ (32 * n)) mod m"
    by (simp only: rv mod_mod_trivial)
  have op: "start_op RSA_MOD_MULT_START_REG hw10
      = block_write (RSA_MEM_Z_BLOCK_BASE, 0) (limbs_of_nat n ((x * y) mod m)) hw10"
    unfolding start_op_def
    using hw_mod_mult_result [OF len bM bR bX bY m' M(2) [folded m_def] rinv] by simp
  have rd: "block_read hw13 (RSA_MEM_Z_BLOCK_BASE, 0) (mpi_words M)
      = limbs_of_nat (mpi_words M) ((x * y) mod m)"
    unfolding hw13_def wait_op_complete_def op
    using wM by (simp add: block_read_block_write_take take_limbs_of_nat)
  have acq: "rsa_acquired hw13 = Suc (rsa_acquired hw)"
    unfolding hw13_def wait_op_complete_def op
    by (simp add: hw10_def esp_mpi_acquire_hardware_def)
  have pos: "RSA_SEARCH_POS_REG hw13 = of_nat (mbedtls_mpi_bitlen Y) - 1"
    unfolding hw13_def wait_op_complete_def op by (simp add: hw10_def)
  from run rd acq pos show ?thesis unfolding m_def x_def y_def by blast
qed


lemma esp_mpi_mul_mpi_mod_ok:
  assumes M: "mpi_s M = 1" "odd (limbs_val (mpi_p M))"
    and n: "n = max (max (mpi_words M) (mpi_words X)) (mpi_words Y)" "n \<le> 128"
    and alloc: "can_alloc (2 * n + 1)"
      "can_alloc (max 1 (bits_to_words (nat_bitlen (2 ^ (64 * n) mod limbs_val (mpi_p M)))))"
      "mpi_words M \<le> length (mpi_p Z) \<or> can_alloc (mpi_words M)"
  shows "\<exists>Z' hw'. esp_mpi_mul_mpi_mod can_alloc hw Z X Y M = (None, Z', hw')
           \<and> mpi_s Z' = mpi_s Z
           \<and> limbs_val (mpi_p Z')
               = (limbs_val (mpi_p X) * limbs_val (mpi_p Y)) mod limbs_val (mpi_p M)"
proof -
  define m where "m = limbs_val (mpi_p M)"
  define z where "z = (limbs_val (mpi_p X) * limbs_val (mpi_p Y)) mod m"
  obtain hw' where run: "esp_mpi_mul_mpi_mod can_alloc hw Z X Y M
      = (None, snd (mem_block_to_mpi can_alloc Z (RSA_MEM_Z_BLOCK_BASE, 0) (mpi_words M) hw'),
         esp_mpi_release_hardware hw')"
    and rd: "block_read hw' (RSA_MEM_Z_BLOCK_BASE, 0) (mpi_words M) = limbs_of_nat (mpi_words M) z"
    unfolding z_def m_def using esp_mpi_mul_mpi_mod_run [OF M n alloc(1,2)] by blast
  have m0: "0 < m" using M(2) unfolding m_def by (cases "limbs_val (mpi_p M)") auto
  have "mpi_words M \<le> n" unfolding n(1) by simp
  then have mw: "mpi_words M \<le> MBEDTLS_MPI_MAX_LIMBS"
    using n(2) by (simp add: MBEDTLS_MPI_MAX_LIMBS_def)
  have "z < m" unfolding z_def using m0 by (rule mod_less_divisor)
  moreover have "m < 2 ^ (32 * mpi_words M)" unfolding m_def by (rule limbs_val_lt_words)
  ultimately have zlt: "z < 2 ^ (32 * mpi_words M)" by (rule order_less_trans)
  have "mem_block_to_mpi can_alloc Z (RSA_MEM_Z_BLOCK_BASE, 0) (mpi_words M) hw'
      = (None, Z\<lparr>mpi_p := limbs_of_nat (mpi_words M) z
                    @ replicate (length (mpi_p Z) - mpi_words M) 0\<rparr>)"
    using mem_block_to_mpi_ok [of "mpi_words M" Z can_alloc "(RSA_MEM_Z_BLOCK_BASE, 0)" hw'] mw alloc(3)
    by (simp add: rd)
  then show ?thesis
    using zlt unfolding run z_def [symmetric] m_def [symmetric]
    by (simp add: limbs_val_append limbs_val_limbs_of_nat)
qed

lemma esp_mpi_mul_mpi_mod_alloc_fail:
  assumes M: "mpi_s M = 1" "odd (limbs_val (mpi_p M))"
    and n: "n = max (max (mpi_words M) (mpi_words X)) (mpi_words Y)" "n \<le> 128"
    and alloc: "can_alloc (2 * n + 1)"
      "can_alloc (max 1 (bits_to_words (nat_bitlen (2 ^ (64 * n) mod limbs_val (mpi_p M)))))"
    and fail: "length (mpi_p Z) < mpi_words M" "\<not> can_alloc (mpi_words M)"
  shows "\<exists>hw'. esp_mpi_mul_mpi_mod can_alloc hw Z X Y M = (None, Z, hw')
           \<and> mem_block_to_mpi can_alloc Z (RSA_MEM_Z_BLOCK_BASE, 0) (mpi_words M) hw'
               = (Some MBEDTLS_ERR_MPI_ALLOC_FAILED, Z)"
proof -
  obtain hw' where run: "esp_mpi_mul_mpi_mod can_alloc hw Z X Y M
      = (None, snd (mem_block_to_mpi can_alloc Z (RSA_MEM_Z_BLOCK_BASE, 0) (mpi_words M) hw'),
         esp_mpi_release_hardware hw')"
    using esp_mpi_mul_mpi_mod_run [OF M n alloc] by blast
  have f: "mem_block_to_mpi can_alloc Z (RSA_MEM_Z_BLOCK_BASE, 0) (mpi_words M) hw'
      = (Some MBEDTLS_ERR_MPI_ALLOC_FAILED, Z)" for hw'
    using fail by (simp add: mem_block_to_mpi_def mbedtls_mpi_grow_def)
  show ?thesis unfolding run by (simp add: f)
qed


section \<open>The search position of the modular multiplication\<close>

lemma esp_mpi_mul_mpi_mod_None:
  assumes "esp_mpi_mul_mpi_mod can_alloc hw Z X Y M = (None, Z', hw')"
  shows "max (max (mpi_words M) (mpi_words X)) (mpi_words Y) * 32 \<le> 4096
       \<and> RSA_SEARCH_POS_REG hw' = of_nat (mbedtls_mpi_bitlen Y) - 1
       \<and> rsa_acquired hw' = Suc (rsa_acquired hw)"
proof -
  let ?n = "max (max (mpi_words M) (mpi_words X)) (mpi_words Y)"
  have w: "\<not> 4096 < ?n * 32"
    using assms unfolding esp_mpi_mul_mpi_mod_def Let_def by (auto split: if_splits)
  obtain r Rinv where c: "calculate_rinv can_alloc mbedtls_mpi_init M ?n = (r, Rinv)"
    by (cases "calculate_rinv can_alloc mbedtls_mpi_init M ?n")
  have r: "r = None"
    using assms w c unfolding esp_mpi_mul_mpi_mod_def Let_def by (cases r) auto
  show ?thesis
    using assms w c r unfolding esp_mpi_mul_mpi_mod_def Let_def
    by (auto simp: esp_mpi_release_hardware_def wait_op_complete_def esp_mpi_acquire_hardware_def)
qed

text \<open>
  Claim C10.  The modular multiplication has no check of \<open>Y\<close> against zero: a call that is
  not rejected for its width or for its modulus (it returns success) has written
  \<open>y_bits - 1\<close>, computed on 32-bit unsigned words, to the search-position register.  When
  \<open>Y\<close> is zero its bit length is 0 and the register holds the largest 32-bit value,
  \<open>0xFFFFFFFF\<close>; when \<open>Y\<close> is not zero the bit length is positive and the register holds
  \<open>y_bits - 1\<close> without wrap-around.
\<close>

theorem search_pos_underflow:
  assumes "esp_mpi_mul_mpi_mod can_alloc hw Z X Y M = (None, Z', hw')"
  shows "RSA_SEARCH_POS_REG hw' = of_nat (mbedtls_mpi_bitlen Y) - 1
       \<and> (limbs_val (mpi_p Y) = 0 \<longrightarrow>
            mbedtls_mpi_bitlen Y = 0 \<and> RSA_SEARCH_POS_REG hw' = 0xFFFFFFFF)
       \<and> (limbs_val (mpi_p Y) \<noteq> 0 \<longrightarrow>
            0 < mbedtls_mpi_bitlen Y \<and>
            unat (RSA_SEARCH_POS_REG hw') = mbedtls_mpi_bitlen Y - 1)"
proof -
  note h = esp_mpi_mul_mpi_mod_None [OF assms]
  have reg: "RSA_SEARCH_POS_REG hw' = of_nat (mbedtls_mpi_bitlen Y) - 1" using h by simp
  have zero: "mbedtls_mpi_bitlen Y = 0 \<and> RSA_SEARCH_POS_REG hw' = 0xFFFFFFFF"
    if "limbs_val (mpi_p Y) = 0"
  proof -
    have "mbedtls_mpi_bitlen Y = 0" using that by (simp add: bitlen_0_iff_words words_0_iff_val)
    then show ?thesis by (simp add: reg)
  qed
  have pos: "0 < mbedtls_mpi_bitlen Y \<and> unat (RSA_SEARCH_POS_REG hw') = mbedtls_mpi_bitlen Y - 1"
    if "limbs_val (mpi_p Y) \<noteq> 0"
  proof -
    have b0: "0 < mbedtls_mpi_bitlen Y"
      using that bitlen_0_iff_words [of Y] words_0_iff_val [of Y] by simp
    have "mpi_words Y * 32 \<le> 4096" using h by simp
    then have b1: "mbedtls_mpi_bitlen Y \<le> 4096" using bitlen_le [of Y] by simp
    then have u: "unat (of_nat (mbedtls_mpi_bitlen Y) :: 32 word) = mbedtls_mpi_bitlen Y"
      by (simp add: unat_of_nat)
    then have "(of_nat (mbedtls_mpi_bitlen Y) :: 32 word) \<noteq> 0" using b0 by (auto simp: unat_eq_0 [symmetric] simp del: unat_eq_0)
    then show ?thesis using b0 u by (simp add: reg unat_minus_one)
  qed
  from reg zero pos show ?thesis by blast
qed

lemma mpi_words_1 [simp]: "mpi_words \<lparr>mpi_s = sg, mpi_p = [w]\<rparr> = (if w = 0 then 0 else 1)"
  by (simp add: mpi_words_def)

lemma nat_bitlen_1 [simp]: "nat_bitlen (Suc 0) = Suc 0"
  by simp

theorem search_pos_underflow_witness:
  "(\<exists>Z' hw'. esp_mpi_mul_mpi_mod (\<lambda>k. True) rsa_hw_init mbedtls_mpi_init
       \<lparr>mpi_s = 1, mpi_p = [2]\<rparr> \<lparr>mpi_s = 1, mpi_p = [0]\<rparr> \<lparr>mpi_s = 1, mpi_p = [7]\<rparr>
     = (None, Z', hw') \<and> RSA_SEARCH_POS_REG hw' = 0xFFFFFFFF)
   \<and> (\<exists>Z' hw'. esp_mpi_mul_mpi_mod (\<lambda>k. True) rsa_hw_init mbedtls_mpi_init
       \<lparr>mpi_s = 1, mpi_p = [2]\<rparr> \<lparr>mpi_s = 1, mpi_p = [5]\<rparr> \<lparr>mpi_s = 1, mpi_p = [7]\<rparr>
     = (None, Z', hw') \<and> unat (RSA_SEARCH_POS_REG hw') = 2)"
proof -
  let ?X = "\<lparr>mpi_s = 1, mpi_p = [2]\<rparr>"
  let ?M = "\<lparr>mpi_s = 1, mpi_p = [7]\<rparr>"
  let ?Y0 = "\<lparr>mpi_s = 1, mpi_p = [0]\<rparr>"
  let ?Y5 = "\<lparr>mpi_s = 1, mpi_p = [5]\<rparr>"
  have b5: "mbedtls_mpi_bitlen ?Y5 = 3" by (simp add: mbedtls_mpi_bitlen_def)
  obtain Z0 hw0 where e0: "esp_mpi_mul_mpi_mod (\<lambda>k. True) rsa_hw_init mbedtls_mpi_init ?X ?Y0 ?M
      = (None, Z0, hw0)"
    using esp_mpi_mul_mpi_mod_ok [of ?M 1 ?X ?Y0 "\<lambda>k. True" mbedtls_mpi_init rsa_hw_init]
    by auto
  obtain Z5 hw5 where e5: "esp_mpi_mul_mpi_mod (\<lambda>k. True) rsa_hw_init mbedtls_mpi_init ?X ?Y5 ?M
      = (None, Z5, hw5)"
    using esp_mpi_mul_mpi_mod_ok [of ?M 1 ?X ?Y5 "\<lambda>k. True" mbedtls_mpi_init rsa_hw_init]
    by auto
  have "RSA_SEARCH_POS_REG hw0 = 0xFFFFFFFF"
    using search_pos_underflow [OF e0] by simp
  moreover have "unat (RSA_SEARCH_POS_REG hw5) = 2"
    using search_pos_underflow [OF e5] b5 by simp
  ultimately show ?thesis using e0 e5 by blast
qed

section \<open>Inputs on which the modular multiplication goes wrong\<close>

text \<open>
  Claim C2.  \<^verbatim>\<open>esp_mpi_mul_mpi_mod\<close> never writes the sign of \<open>Z\<close>: the read-back leaves it
  as it was on entry.  With \<open>X = 2\<close>, \<open>Y = 3\<close>, \<open>M = 7\<close> and a result integer that holds \<open>-1\<close>
  on entry, the call returns success with \<open>Z = -6\<close>, while \<open>(X * Y) mod M = 6\<close>.
\<close>

theorem esp_mpi_mul_mpi_mod_stale_sign:
  "\<exists>Z' hw'. esp_mpi_mul_mpi_mod (\<lambda>k. True) rsa_hw_init \<lparr>mpi_s = - 1, mpi_p = [1]\<rparr>
       \<lparr>mpi_s = 1, mpi_p = [2]\<rparr> \<lparr>mpi_s = 1, mpi_p = [3]\<rparr> \<lparr>mpi_s = 1, mpi_p = [7]\<rparr>
     = (None, Z', hw') \<and> mpi_val Z' = - 6
       \<and> (mpi_val \<lparr>mpi_s = 1, mpi_p = [2]\<rparr> * mpi_val \<lparr>mpi_s = 1, mpi_p = [3]\<rparr>)
            mod mpi_val \<lparr>mpi_s = 1, mpi_p = [7]\<rparr> = 6"
  using esp_mpi_mul_mpi_mod_ok [of "\<lparr>mpi_s = 1, mpi_p = [7]\<rparr>" 1 "\<lparr>mpi_s = 1, mpi_p = [2]\<rparr>"
      "\<lparr>mpi_s = 1, mpi_p = [3]\<rparr>" "\<lambda>k. True" "\<lparr>mpi_s = - 1, mpi_p = [1]\<rparr>" rsa_hw_init]
  by (auto simp: mpi_val_def)

text \<open>
  Claim C6.  \<^verbatim>\<open>esp_mpi_mul_mpi_mod\<close> discards the return value of the read-back.  With
  \<open>X = 2\<close>, \<open>Y = 3\<close>, \<open>M = 2 ^ 32 + 1\<close>, a fresh \<open>Z\<close> and an allocator that refuses exactly
  the requests for two limbs, the read-back of the two-limb result fails with the
  allocation error, and the call still returns success, with \<open>Z\<close> unchanged (zero) while
  \<open>(X * Y) mod M = 6\<close>.
\<close>

theorem esp_mpi_mul_mpi_mod_drops_alloc_error:
  "\<exists>hw'. esp_mpi_mul_mpi_mod (\<lambda>k. k \<noteq> 2) rsa_hw_init mbedtls_mpi_init
       \<lparr>mpi_s = 1, mpi_p = [2]\<rparr> \<lparr>mpi_s = 1, mpi_p = [3]\<rparr> \<lparr>mpi_s = 1, mpi_p = [1, 1]\<rparr>
     = (None, mbedtls_mpi_init, hw')
     \<and> mem_block_to_mpi (\<lambda>k. k \<noteq> 2) mbedtls_mpi_init (RSA_MEM_Z_BLOCK_BASE, 0) 2 hw'
         = (Some MBEDTLS_ERR_MPI_ALLOC_FAILED, mbedtls_mpi_init)
     \<and> mpi_val mbedtls_mpi_init = 0
     \<and> (mpi_val \<lparr>mpi_s = 1, mpi_p = [2]\<rparr> * mpi_val \<lparr>mpi_s = 1, mpi_p = [3]\<rparr>)
            mod mpi_val \<lparr>mpi_s = 1, mpi_p = [1, 1]\<rparr> = 6"
proof -
  let ?M = "\<lparr>mpi_s = 1, mpi_p = [1, 1]\<rparr>"
  have w: "mpi_words ?M = 2" by (simp add: mpi_words_def)
  have "\<exists>hw'. esp_mpi_mul_mpi_mod (\<lambda>k. k \<noteq> 2) rsa_hw_init mbedtls_mpi_init
       \<lparr>mpi_s = 1, mpi_p = [2]\<rparr> \<lparr>mpi_s = 1, mpi_p = [3]\<rparr> ?M = (None, mbedtls_mpi_init, hw')
     \<and> mem_block_to_mpi (\<lambda>k. k \<noteq> 2) mbedtls_mpi_init (RSA_MEM_Z_BLOCK_BASE, 0) (mpi_words ?M) hw'
         = (Some MBEDTLS_ERR_MPI_ALLOC_FAILED, mbedtls_mpi_init)"
    by (rule esp_mpi_mul_mpi_mod_alloc_fail [where n = 2])
       (simp_all add: w bits_to_words_def mbedtls_mpi_init_def)
  then show ?thesis by (simp add: w mpi_val_def mbedtls_mpi_init_def)
qed

section \<open>The modular exponentiation as a whole\<close>

lemma limbs_val_lt_bitlen: "limbs_val (mpi_p X) < 2 ^ mbedtls_mpi_bitlen X"
proof (cases "mpi_words X")
  case 0
  then have "limbs_val (mpi_p X) = 0" by (simp add: words_0_iff_val)
  then show ?thesis by simp
next
  case (Suc i)
  define w where "w = unat (mpi_p X ! i)"
  have il: "i < length (mpi_p X)" using mpi_words_le_length [of X] Suc by simp
  have "limbs_val (mpi_p X) = limbs_val (take (Suc i) (mpi_p X))"
    using limbs_val_mpi_words [of X] Suc by simp
  also have "\<dots> = limbs_val (take i (mpi_p X)) + 2 ^ (32 * i) * w"
    using il by (simp add: take_Suc_conv_app_nth limbs_val_append w_def min_absorb2)
  finally have v: "limbs_val (mpi_p X) = limbs_val (take i (mpi_p X)) + 2 ^ (32 * i) * w" .
  have a: "limbs_val (take i (mpi_p X)) < 2 ^ (32 * i)"
    using limbs_val_lt [of "take i (mpi_p X)"] il by (simp add: min_absorb2)
  have "Suc w \<le> 2 ^ nat_bitlen w" using nat_bitlen_gt [of w] by simp
  then have "2 ^ (32 * i) * Suc w \<le> 2 ^ (32 * i) * 2 ^ nat_bitlen w" by (rule mult_le_mono2)
  moreover have "limbs_val (take i (mpi_p X)) + 2 ^ (32 * i) * w < 2 ^ (32 * i) * Suc w"
    using a by simp
  ultimately have "limbs_val (mpi_p X) < 2 ^ (32 * i) * 2 ^ nat_bitlen w"
    unfolding v by (rule order_less_le_trans [rotated])
  then show ?thesis
    using Suc by (simp add: mbedtls_mpi_bitlen_def w_def power_add mult.commute del: nat_bitlen.simps)
qed

lemma limb0_odd:
  assumes "0 < mpi_val Y"
  shows "((mpi_p Y ! 0) AND 1 \<noteq> 0) = odd (limbs_val (mpi_p Y))"
  using limb0_even [OF assms] by simp

lemma mbedtls_mpi_exp_mod_run:
  assumes M: "mpi_s M = 1" "odd (limbs_val (mpi_p M))"
    and Y: "0 < mpi_val Y"
    and n: "n = max (mpi_words M) (max (mpi_words X) (mpi_words Y))" "n \<le> 128"
    and alloc: "can_alloc (2 * n + 1)"
      "can_alloc (max 1 (bits_to_words (nat_bitlen (2 ^ (64 * n) mod limbs_val (mpi_p M)))))"
  shows "\<exists>hw'. mbedtls_mpi_exp_mod can_alloc hw Z X Y M None
             = (case mem_block_to_mpi can_alloc Z (RSA_MEM_Z_BLOCK_BASE, 0) (mpi_words M) hw' of
                  (ret, Z1) \<Rightarrow>
                    if mpi_s X = - 1 \<and> odd (limbs_val (mpi_p Y))
                    then (case mbedtls_mpi_add_mpi can_alloc (Z1\<lparr>mpi_s := - 1\<rparr>) M
                                 (Z1\<lparr>mpi_s := - 1\<rparr>) of
                            (ret', Z3) \<Rightarrow> (ret', Z3, None, esp_mpi_release_hardware hw'))
                    else (ret, Z1\<lparr>mpi_s := 1\<rparr>, None, esp_mpi_release_hardware hw'))
           \<and> block_read hw' (RSA_MEM_Z_BLOCK_BASE, 0) (mpi_words M)
               = limbs_of_nat (mpi_words M)
                   ((limbs_val (mpi_p X) ^ limbs_val (mpi_p Y)) mod limbs_val (mpi_p M))
           \<and> rsa_acquired hw' = Suc (rsa_acquired hw)"
proof -
  define m where "m = limbs_val (mpi_p M)"
  define x where "x = limbs_val (mpi_p X)"
  define y where "y = limbs_val (mpi_p Y)"
  define k where "k = mbedtls_mpi_bitlen Y"
  have m0: "0 < m" using M(2) unfolding m_def by (cases "limbs_val (mpi_p M)") auto
  have Mv: "mpi_val M = int m" using M(1) by (simp add: mpi_val_def m_def)
  have wM: "mpi_words M \<le> n" and wX: "mpi_words X \<le> n" and wY: "mpi_words Y \<le> n"
    unfolding n(1) by simp_all
  have "mpi_words M \<noteq> 0" using m0 words_0_iff_val [of M] by (simp add: m_def)
  then have n1: "1 \<le> n" using wM by simp
  have width: "\<not> 4096 < n * 32" using n(2) by simp
  have c1: "\<not> (mbedtls_mpi_cmp_int M 0 \<le> 0 \<or> (mpi_p M ! 0) AND 1 = 0)"
    using m0 M(2) limb0_even [of M] by (simp add: Mv m_def)
  have c2: "\<not> mbedtls_mpi_cmp_int Y 0 < 0" "\<not> mbedtls_mpi_cmp_int Y 0 = 0" using Y by simp_all
  have c3: "((mpi_p Y ! 0) AND 1 \<noteq> 0) = odd y" unfolding y_def by (rule limb0_odd [OF Y])
  obtain Rinv where c: "calculate_rinv can_alloc mbedtls_mpi_init M n = (None, Rinv)"
    and rv: "limbs_val (mpi_p Rinv) = 2 ^ (64 * n) mod m"
    unfolding m_def using calculate_rinv_ok [OF M(1) m0 [unfolded m_def] wM n(2) alloc] by blast
  have "2 ^ (64 * n) mod m < m" using m0 by (rule mod_less_divisor)
  moreover have "m < 2 ^ (32 * n)" unfolding m_def by (rule lt_pow_mono [OF limbs_val_lt_words wM])
  ultimately have "limbs_val (mpi_p Rinv) < 2 ^ (32 * n)" unfolding rv by (rule order_less_trans)
  then have rt: "limbs_val (take n (mpi_p Rinv)) = limbs_val (mpi_p Rinv)"
    by (simp add: limbs_val_take)
  define hw10 where "hw10 =
    (mpi_to_mem_block (RSA_MEM_RB_BLOCK_BASE, 0) Rinv n
      (mpi_to_mem_block (RSA_MEM_M_BLOCK_BASE, 0) M n
        (mpi_to_mem_block (RSA_MEM_Y_BLOCK_BASE, 0) Y n
          (mpi_to_mem_block (RSA_MEM_X_BLOCK_BASE, 0) X n
            ((esp_mpi_acquire_hardware hw)\<lparr>RSA_LENGTH_REG := of_nat n - 1\<rparr>)))))
      \<lparr>RSA_M_DASH_REG := modular_inverse M, RSA_CONSTANT_TIME_REG := 0,
        RSA_SEARCH_OPEN_REG := 1, RSA_SEARCH_POS_REG := of_nat k - 1\<rparr>"
  define hw13 where "hw13 =
    (wait_op_complete RSA_MODEXP_START_REG (start_op RSA_MODEXP_START_REG hw10))
      \<lparr>RSA_SEARCH_OPEN_REG := 0\<rparr>"
  have run: "mbedtls_mpi_exp_mod can_alloc hw Z X Y M None
      = (case mem_block_to_mpi can_alloc Z (RSA_MEM_Z_BLOCK_BASE, 0) (mpi_words M) hw13 of
           (ret, Z1) \<Rightarrow>
             if mpi_s X = - 1 \<and> odd y
             then (case mbedtls_mpi_add_mpi can_alloc (Z1\<lparr>mpi_s := - 1\<rparr>) M
                          (Z1\<lparr>mpi_s := - 1\<rparr>) of
                     (ret', Z3) \<Rightarrow> (ret', Z3, None, esp_mpi_release_hardware hw13))
             else (ret, Z1\<lparr>mpi_s := 1\<rparr>, None, esp_mpi_release_hardware hw13))"
    unfolding mbedtls_mpi_exp_mod_def Let_def n(1) [symmetric] k_def [symmetric]
    by (simp only: c1 c2 c3 width if_False c prod.case option.case hw13_def hw10_def
          rsa_hw.update_convs mbedtls_mpi_init_def mbedtls_mpi.simps if_True refl
          c [unfolded mbedtls_mpi_init_def])
  have len: "unat (RSA_LENGTH_REG hw10) + 1 = n"
    using unat_length_reg [of n] n1 n(2) by (simp add: hw10_def)
  have y0: "0 < y" using Y by (simp add: mpi_val_def y_def zero_less_mult_iff)
  then have "k \<noteq> 0" unfolding k_def using bitlen_0_iff_words [of Y] words_0_iff_val [of Y]
    by (simp add: y_def)
  moreover have "k \<le> 4096" unfolding k_def using bitlen_le [of Y] wY n(2) by simp
  ultimately have pos: "unat (RSA_SEARCH_POS_REG hw10) + 1 = k"
    using unat_length_reg [of k] by (simp add: hw10_def)
  have so: "bit (RSA_SEARCH_OPEN_REG hw10) 0" by (simp add: hw10_def)
  have bM: "limbs_val (block_read hw10 (RSA_MEM_M_BLOCK_BASE, 0) n) = m"
    unfolding hw10_def m_def using wM by (simp add: limbs_val_append limbs_val_take_words)
  have bR: "limbs_val (block_read hw10 (RSA_MEM_RB_BLOCK_BASE, 0) n) = limbs_val (mpi_p Rinv)"
    unfolding hw10_def by (simp add: limbs_val_append rt)
  have bX: "limbs_val (block_read hw10 (RSA_MEM_X_BLOCK_BASE, 0) n) = x"
    unfolding hw10_def x_def using wX by (simp add: limbs_val_append limbs_val_take_words)
  have bY: "limbs_val (block_read hw10 (RSA_MEM_Y_BLOCK_BASE, 0) n) = y"
    unfolding hw10_def y_def using wY by (simp add: limbs_val_append limbs_val_take_words)
  have m': "(m * unat (RSA_M_DASH_REG hw10) + 1) mod 2 ^ 32 = 0"
    using modular_inverse_mont [OF M(2)] by (simp add: hw10_def m_def)
  have "(2::nat) ^ (64 * n) = 2 ^ (32 * n) * 2 ^ (32 * n)"
    by (simp add: power_add [symmetric])
  then have rinv: "limbs_val (mpi_p Rinv) mod m = (2 ^ (32 * n) * 2 ^ (32 * n)) mod m"
    by (simp only: rv mod_mod_trivial)
  have "y < 2 ^ k" unfolding y_def k_def by (rule limbs_val_lt_bitlen)
  then have yk: "y mod 2 ^ k = y" by simp
  have op: "start_op RSA_MODEXP_START_REG hw10
      = block_write (RSA_MEM_Z_BLOCK_BASE, 0) (limbs_of_nat n ((x ^ y) mod m)) hw10"
    unfolding start_op_def
    using hw_mod_exp_result [OF len bM bR bX bY so pos m' M(2) [folded m_def] rinv]
    by (simp add: yk)
  have rd: "block_read hw13 (RSA_MEM_Z_BLOCK_BASE, 0) (mpi_words M)
      = limbs_of_nat (mpi_words M) ((x ^ y) mod m)"
    unfolding hw13_def wait_op_complete_def op
    using wM by (simp add: block_read_block_write_take take_limbs_of_nat)
  have acq: "rsa_acquired hw13 = Suc (rsa_acquired hw)"
    unfolding hw13_def wait_op_complete_def op
    by (simp add: hw10_def esp_mpi_acquire_hardware_def)
  from run rd acq show ?thesis unfolding m_def x_def y_def by blast
qed


text \<open>
  Claim C3.  The sign compensation of \<^verbatim>\<open>mbedtls_mpi_exp_mod\<close> sets the sign of the raw
  result to \<open>-1\<close> and adds \<open>M\<close>, also when the raw result is zero.  With \<open>X = -3\<close>, \<open>Y = 3\<close>,
  \<open>M = 9\<close> the accelerator leaves \<open>27 mod 9 = 0\<close>, and the call returns success with
  \<open>Z = 9 = M\<close>, which is not below \<open>M\<close>, while \<open>X ^ Y mod M = 0\<close>.
\<close>

theorem mbedtls_mpi_exp_mod_negative_multiple:
  "\<exists>hw'. mbedtls_mpi_exp_mod (\<lambda>k. True) rsa_hw_init mbedtls_mpi_init
       \<lparr>mpi_s = - 1, mpi_p = [3]\<rparr> \<lparr>mpi_s = 1, mpi_p = [3]\<rparr> \<lparr>mpi_s = 1, mpi_p = [9]\<rparr> None
     = (None, \<lparr>mpi_s = 1, mpi_p = [9]\<rparr>, None, hw')
     \<and> mpi_val \<lparr>mpi_s = 1, mpi_p = [9]\<rparr> = 9
     \<and> (mpi_val \<lparr>mpi_s = - 1, mpi_p = [3]\<rparr> ^ 3) mod mpi_val \<lparr>mpi_s = 1, mpi_p = [9]\<rparr> = 0"
proof -
  let ?X = "\<lparr>mpi_s = - 1, mpi_p = [3]\<rparr>"
  let ?Y = "\<lparr>mpi_s = 1, mpi_p = [3]\<rparr>"
  let ?M = "\<lparr>mpi_s = 1, mpi_p = [9]\<rparr>"
  obtain hw' where run: "mbedtls_mpi_exp_mod (\<lambda>k. True) rsa_hw_init mbedtls_mpi_init ?X ?Y ?M None
      = (case mem_block_to_mpi (\<lambda>k. True) mbedtls_mpi_init (RSA_MEM_Z_BLOCK_BASE, 0)
               (mpi_words ?M) hw' of
           (ret, Z1) \<Rightarrow>
             if mpi_s ?X = - 1 \<and> odd (limbs_val (mpi_p ?Y))
             then (case mbedtls_mpi_add_mpi (\<lambda>k. True) (Z1\<lparr>mpi_s := - 1\<rparr>) ?M
                          (Z1\<lparr>mpi_s := - 1\<rparr>) of
                     (ret', Z3) \<Rightarrow> (ret', Z3, None, esp_mpi_release_hardware hw'))
             else (ret, Z1\<lparr>mpi_s := 1\<rparr>, None, esp_mpi_release_hardware hw'))"
    and rd: "block_read hw' (RSA_MEM_Z_BLOCK_BASE, 0) (mpi_words ?M)
      = limbs_of_nat (mpi_words ?M)
          ((limbs_val (mpi_p ?X) ^ limbs_val (mpi_p ?Y)) mod limbs_val (mpi_p ?M))"
    using mbedtls_mpi_exp_mod_run [of ?M ?Y 1 ?X "\<lambda>k. True" rsa_hw_init mbedtls_mpi_init]
    by (auto simp: mpi_val_def)
  have rb: "mem_block_to_mpi (\<lambda>k. True) mbedtls_mpi_init (RSA_MEM_Z_BLOCK_BASE, 0) (mpi_words ?M) hw'
      = (None, \<lparr>mpi_s = 1, mpi_p = [0]\<rparr>)"
    using rd by (simp add: mem_block_to_mpi_def mbedtls_mpi_grow_def mbedtls_mpi_init_def
        MBEDTLS_MPI_MAX_LIMBS_def)
  have nb: "nat_bitlen 9 = 4" by (simp add: nat_bitlen.simps [of 9] nat_bitlen.simps [of 4]
        nat_bitlen.simps [of 2] del: nat_bitlen.simps)
  have add: "mbedtls_mpi_add_mpi (\<lambda>k. True) \<lparr>mpi_s = - 1, mpi_p = [0]\<rparr> ?M
        \<lparr>mpi_s = - 1, mpi_p = [0]\<rparr> = (None, \<lparr>mpi_s = 1, mpi_p = [9]\<rparr>)"
    by (simp add: mbedtls_mpi_add_mpi_def Let_def mpi_assign_def mbedtls_mpi_grow_def nb
        bits_to_words_def MBEDTLS_MPI_MAX_LIMBS_def del: nat_bitlen.simps)
  show ?thesis unfolding run rb by (simp add: add mpi_val_def)
qed

section \<open>The failover multiplication\<close>

lemma limbs_val_ones: "limbs_val (replicate n 0xFFFFFFFF) = 2 ^ (32 * n) - 1"
proof (induction n)
  case 0
  show ?case by simp
next
  case (Suc n)
  have "(1::nat) \<le> 2 ^ (32 * n)" by simp
  then have "4294967295 + 4294967296 * (2 ^ (32 * n) - 1) = 4294967296 * 2 ^ (32 * n) - (1::nat)"
    by (simp add: algebra_simps)
  then show ?case by (simp add: Suc.IH power_add)
qed

lemma block_read_mem [simp]:
  "block_read (hw\<lparr>rsa_mem := F\<rparr>) base n = map (\<lambda>j. F (fst base) (snd base + j)) [0..<n]"
  by (simp add: block_read_def mem_read_def)

lemma product_below:
  fixes x y A B :: nat
  assumes "x < A" "y < B" "2 \<le> A" "2 \<le> B"
  shows "x * y < A * B - 1"
proof -
  obtain A' where A: "A = Suc A'" "1 \<le> A'" using assms(3) by (cases A) auto
  obtain B' where B: "B = Suc B'" "1 \<le> B'" using assms(4) by (cases B) auto
  have "x * y \<le> A' * B'" using assms(1,2) A B by (intro mult_mono) simp_all
  also have "\<dots> < A' * B' + A' + B'" using A(2) by simp
  also have "\<dots> = A * B - 1" by (simp add: A B)
  finally show ?thesis .
qed

lemma product_below_ones:
  fixes x y :: nat
  assumes "x < 2 ^ a" "y < 2 ^ b" "0 < a" "0 < b"
  shows "x * y < 2 ^ (a + b) - 1"
proof -
  have a2: "(2::nat) \<le> 2 ^ a" using assms(3) by (cases a) simp_all
  have b2: "(2::nat) \<le> 2 ^ b" using assms(4) by (cases b) simp_all
  from product_below [OF assms(1,2) a2 b2] show ?thesis by (simp add: power_add)
qed


lemma block_read_eqI:
  "length ws = n \<Longrightarrow> (\<And>j. j < n \<Longrightarrow> rsa_mem hw (fst base) (snd base + j) = ws ! j)
     \<Longrightarrow> block_read hw base n = ws"
  by (auto simp: block_read_def mem_read_def intro!: nth_equalityI)

lemma ones_modulus:
  assumes "1 \<le> n"
  shows "((2 ^ (32 * n) - 1) * 1 + 1) mod 2 ^ 32 = (0::nat)"
    and "odd ((2::nat) ^ (32 * n) - 1)"
    and "1 mod (2 ^ (32 * n) - 1) = (2 ^ (32 * n) * 2 ^ (32 * n)) mod (2 ^ (32 * n) - (1::nat))"
proof -
  obtain k where n: "n = Suc k" using assms by (cases n) auto
  define m where "m = (2::nat) ^ (32 * n) - 1"
  have R: "(2::nat) ^ (32 * n) = m + 1" by (simp add: m_def)
  have "(2::nat) ^ (32 * n) = 2 ^ 32 * 2 ^ (32 * k)" by (simp add: n power_add)
  then have "(m + 1) mod 2 ^ 32 = 0" unfolding R [symmetric] by simp
  then show "((2 ^ (32 * n) - 1) * 1 + 1) mod 2 ^ 32 = (0::nat)" by (simp add: m_def)
  have "even ((2::nat) ^ (32 * n))" by (simp add: n)
  then show "odd ((2::nat) ^ (32 * n) - 1)" by simp
  have one: "(m + 1) mod m = 1 mod m" by (metis add.commute mod_add_self1)
  have "((m + 1) * (m + 1)) mod m = ((m + 1) mod m * ((m + 1) mod m)) mod m"
    by (simp only: mod_mult_eq)
  also have "\<dots> = (1 mod m * (1 mod m)) mod m" by (simp only: one)
  also have "\<dots> = (1 * 1) mod m" by (simp only: mod_mult_eq)
  finally have "1 mod m = ((m + 1) * (m + 1)) mod m" by simp
  then have "1 mod m = (2 ^ (32 * n) * 2 ^ (32 * n)) mod m" by (simp only: R)
  then show "1 mod (2 ^ (32 * n) - 1) = (2 ^ (32 * n) * 2 ^ (32 * n)) mod (2 ^ (32 * n) - (1::nat))"
    by (simp only: m_def)
qed

lemma failover_run:
  assumes zw: "zw \<le> 128" and fit: "mpi_words X \<le> zw" "mpi_words Y \<le> zw"
    and prod: "limbs_val (mpi_p X) * limbs_val (mpi_p Y) < 2 ^ (32 * zw) - 1"
  shows "\<exists>hw'. mpi_mult_mpi_failover_mod_mult can_alloc hw Z X Y zw
             = (None, snd (mem_block_to_mpi can_alloc Z (RSA_MEM_Z_BLOCK_BASE, 0) zw hw'),
                esp_mpi_release_hardware hw')
           \<and> block_read hw' (RSA_MEM_Z_BLOCK_BASE, 0) zw
               = limbs_of_nat zw (limbs_val (mpi_p X) * limbs_val (mpi_p Y))
           \<and> unat (RSA_LENGTH_REG hw') + 1 = zw
           \<and> RSA_M_DASH_REG hw' = 1
           \<and> block_read hw' (RSA_MEM_M_BLOCK_BASE, 0) zw = replicate zw 0xFFFFFFFF
           \<and> block_read hw' (RSA_MEM_RB_BLOCK_BASE, 0) zw = (replicate zw 0)[0 := 1]
           \<and> rsa_acquired hw' = Suc (rsa_acquired hw)"
proof -
  define x where "x = limbs_val (mpi_p X)"
  define y where "y = limbs_val (mpi_p Y)"
  define m where "m = (2::nat) ^ (32 * zw) - 1"
  have z1: "1 \<le> zw" using prod by (cases zw) simp_all
  define hw8 where "hw8 =
    fold (\<lambda>i. mem_write (RSA_MEM_RB_BLOCK_BASE, 0) i 0) [1..<zw]
      (mem_write (RSA_MEM_RB_BLOCK_BASE, 0) 0 1
        (mpi_to_mem_block (RSA_MEM_Y_BLOCK_BASE, 0) Y zw
          (mpi_to_mem_block (RSA_MEM_X_BLOCK_BASE, 0) X zw
            ((fold (\<lambda>i. mem_write (RSA_MEM_M_BLOCK_BASE, 0) i 0xFFFFFFFF) [0..<zw]
                (esp_mpi_acquire_hardware hw))
              \<lparr>RSA_M_DASH_REG := 1, RSA_LENGTH_REG := of_nat zw - 1\<rparr>))))"
  define hw10 where "hw10 =
    wait_op_complete RSA_MOD_MULT_START_REG (start_op RSA_MOD_MULT_START_REG hw8)"
  have run: "mpi_mult_mpi_failover_mod_mult can_alloc hw Z X Y zw
      = (None, snd (mem_block_to_mpi can_alloc Z (RSA_MEM_Z_BLOCK_BASE, 0) zw hw10),
         esp_mpi_release_hardware hw10)"
    unfolding mpi_mult_mpi_failover_mod_mult_def Let_def
    by (simp only: hw10_def hw8_def rsa_hw.update_convs)
  have len: "unat (RSA_LENGTH_REG hw8) + 1 = zw"
    using unat_length_reg [of zw] z1 zw
    by (simp add: hw8_def fold_mem_write mem_write_def)
  have md: "RSA_M_DASH_REG hw8 = 1"
    by (simp add: hw8_def fold_mem_write mem_write_def)
  have bM: "block_read hw8 (RSA_MEM_M_BLOCK_BASE, 0) zw = replicate zw 0xFFFFFFFF"
    by (rule block_read_eqI)
       (simp_all add: hw8_def fold_mem_write mem_write_def mpi_to_mem_block_eq)
  have bR: "block_read hw8 (RSA_MEM_RB_BLOCK_BASE, 0) zw = (replicate zw 0)[0 := 1]"
    by (rule block_read_eqI)
       (auto simp: hw8_def fold_mem_write mem_write_def mpi_to_mem_block_eq nth_list_update)
  have bX: "limbs_val (block_read hw8 (RSA_MEM_X_BLOCK_BASE, 0) zw) = x"
  proof -
    have "block_read hw8 (RSA_MEM_X_BLOCK_BASE, 0) zw
        = take zw (mpi_p X) @ replicate (zw - length (mpi_p X)) 0"
      by (rule block_read_eqI)
         (auto simp: hw8_def fold_mem_write mem_write_def mpi_to_mem_block_eq nth_append)
    then show ?thesis using fit(1) by (simp add: limbs_val_append limbs_val_take_words x_def)
  qed
  have bY: "limbs_val (block_read hw8 (RSA_MEM_Y_BLOCK_BASE, 0) zw) = y"
  proof -
    have "block_read hw8 (RSA_MEM_Y_BLOCK_BASE, 0) zw
        = take zw (mpi_p Y) @ replicate (zw - length (mpi_p Y)) 0"
      by (rule block_read_eqI)
         (auto simp: hw8_def fold_mem_write mem_write_def mpi_to_mem_block_eq nth_append)
    then show ?thesis using fit(2) by (simp add: limbs_val_append limbs_val_take_words y_def)
  qed
  have vM: "limbs_val (block_read hw8 (RSA_MEM_M_BLOCK_BASE, 0) zw) = m"
    by (simp only: bM limbs_val_ones m_def)
  have vR: "limbs_val (block_read hw8 (RSA_MEM_RB_BLOCK_BASE, 0) zw) = 1"
    using z1 by (simp only: bR) (simp add: limbs_val_update_zero)
  have m': "(m * unat (RSA_M_DASH_REG hw8) + 1) mod 2 ^ 32 = 0"
    unfolding md m_def using ones_modulus(1) [OF z1] by simp
  have odd: "odd m" unfolding m_def by (rule ones_modulus(2) [OF z1])
  have rinv: "1 mod m = (2 ^ (32 * zw) * 2 ^ (32 * zw)) mod m"
    unfolding m_def by (rule ones_modulus(3) [OF z1])
  have xy: "(x * y) mod m = x * y" using prod by (simp add: x_def y_def m_def)
  have op: "start_op RSA_MOD_MULT_START_REG hw8
      = block_write (RSA_MEM_Z_BLOCK_BASE, 0) (limbs_of_nat zw (x * y)) hw8"
    unfolding start_op_def
    using hw_mod_mult_result [OF len vM vR bX bY m' odd rinv] by (simp add: xy)
  have rd: "block_read hw10 (RSA_MEM_Z_BLOCK_BASE, 0) zw = limbs_of_nat zw (x * y)"
    unfolding hw10_def wait_op_complete_def op
    using block_read_block_write [of "(RSA_MEM_Z_BLOCK_BASE, 0)" "limbs_of_nat zw (x * y)" hw8]
    by simp
  have keep: "unat (RSA_LENGTH_REG hw10) + 1 = zw" "RSA_M_DASH_REG hw10 = 1"
    "block_read hw10 (RSA_MEM_M_BLOCK_BASE, 0) zw = replicate zw 0xFFFFFFFF"
    "block_read hw10 (RSA_MEM_RB_BLOCK_BASE, 0) zw = (replicate zw 0)[0 := 1]"
    unfolding hw10_def wait_op_complete_def op
    using len md bM bR by (simp_all add: block_write_regs)
  have acq: "rsa_acquired hw10 = Suc (rsa_acquired hw)"
    unfolding hw10_def wait_op_complete_def op
    by (simp add: hw8_def fold_mem_write mem_write_def esp_mpi_acquire_hardware_def)
  from run rd keep acq show ?thesis unfolding m_def x_def y_def by blast
qed

lemma mul_mpi_failover_path:
  assumes "2 \<le> mbedtls_mpi_bitlen X" "2 \<le> mbedtls_mpi_bitlen Y"
    and "2048 < max (mpi_words X) (mpi_words Y) * 32"
    and "(mpi_words X + mpi_words Y) * 32 \<le> 4096"
  shows "mbedtls_mpi_mul_mpi can_alloc hw Z X Y
           = mpi_mult_mpi_failover_mod_mult can_alloc hw Z X Y (mpi_words X + mpi_words Y)"
  using assms by (subst mbedtls_mpi_mul_mpi.simps) (simp add: Let_def bitlen_words)

lemma words_pos: "1 \<le> mbedtls_mpi_bitlen X \<Longrightarrow> 1 \<le> mpi_words X"
  using bitlen_words [of X] by (cases "mpi_words X") (simp_all add: mbedtls_mpi_bitlen_def)

lemma mem_block_to_mpi_fail:
  "\<not> (n \<le> length (mpi_p Z) \<or> can_alloc n) \<Longrightarrow>
     mem_block_to_mpi can_alloc Z base n hw = (Some MBEDTLS_ERR_MPI_ALLOC_FAILED, Z)"
  by (simp add: mem_block_to_mpi_def mbedtls_mpi_grow_def)

lemma mul_mpi_failover_run:
  assumes bx: "2 \<le> mbedtls_mpi_bitlen X" and "by": "2 \<le> mbedtls_mpi_bitlen Y"
    and big: "2048 < max (mpi_words X) (mpi_words Y) * 32"
    and small: "(mpi_words X + mpi_words Y) * 32 \<le> 4096"
    and zw: "zw = mpi_words X + mpi_words Y"
  shows "\<exists>Z' hw'. mbedtls_mpi_mul_mpi can_alloc hw Z X Y = (None, Z', hw')
           \<and> unat (RSA_LENGTH_REG hw') + 1 = zw
           \<and> block_read hw' (RSA_MEM_M_BLOCK_BASE, 0) zw = replicate zw 0xFFFFFFFF
           \<and> RSA_M_DASH_REG hw' = 1
           \<and> block_read hw' (RSA_MEM_RB_BLOCK_BASE, 0) zw = (replicate zw 0)[0 := 1]
           \<and> limbs_val (block_read hw' (RSA_MEM_Z_BLOCK_BASE, 0) zw)
               = limbs_val (mpi_p X) * limbs_val (mpi_p Y)
           \<and> rsa_acquired hw' = Suc (rsa_acquired hw)
           \<and> mpi_s Z' = mpi_s Z
           \<and> (if zw \<le> length (mpi_p Z) \<or> can_alloc zw
               then limbs_val (mpi_p Z') = limbs_val (mpi_p X) * limbs_val (mpi_p Y)
               else Z' = Z)"
proof -
  define x where "x = limbs_val (mpi_p X)"
  define y where "y = limbs_val (mpi_p Y)"
  have xw: "1 \<le> mpi_words X" using bx by (intro words_pos) simp
  have yw: "1 \<le> mpi_words Y" using "by" by (intro words_pos) simp
  have z128: "zw \<le> 128" using small zw by simp
  have "x * y < 2 ^ (32 * mpi_words X + 32 * mpi_words Y) - 1"
    unfolding x_def y_def
    using xw yw by (intro product_below_ones limbs_val_lt_words) simp_all
  then have prod: "x * y < 2 ^ (32 * zw) - 1" by (simp add: zw algebra_simps)
  from failover_run [OF z128 _ _ prod [unfolded x_def y_def], of can_alloc hw Z]
  obtain hw1 where run: "mpi_mult_mpi_failover_mod_mult can_alloc hw Z X Y zw
             = (None, snd (mem_block_to_mpi can_alloc Z (RSA_MEM_Z_BLOCK_BASE, 0) zw hw1),
                esp_mpi_release_hardware hw1)"
    and rd: "block_read hw1 (RSA_MEM_Z_BLOCK_BASE, 0) zw = limbs_of_nat zw (x * y)"
    and regs: "unat (RSA_LENGTH_REG hw1) + 1 = zw" "RSA_M_DASH_REG hw1 = 1"
    and bM: "block_read hw1 (RSA_MEM_M_BLOCK_BASE, 0) zw = replicate zw 0xFFFFFFFF"
    and bR: "block_read hw1 (RSA_MEM_RB_BLOCK_BASE, 0) zw = (replicate zw 0)[0 := 1]"
    and acq: "rsa_acquired hw1 = Suc (rsa_acquired hw)"
    unfolding x_def y_def using zw by auto
  have vz: "limbs_val (limbs_of_nat zw (x * y)) = x * y"
    using prod by (simp add: limbs_val_limbs_of_nat)
  define Z' where "Z' = snd (mem_block_to_mpi can_alloc Z (RSA_MEM_Z_BLOCK_BASE, 0) zw hw1)"
  have Zs: "mpi_s Z' = mpi_s Z \<and> (if zw \<le> length (mpi_p Z) \<or> can_alloc zw
               then limbs_val (mpi_p Z') = x * y else Z' = Z)"
  proof (cases "zw \<le> length (mpi_p Z) \<or> can_alloc zw")
    case True
    have "zw \<le> MBEDTLS_MPI_MAX_LIMBS" using z128 by (simp add: MBEDTLS_MPI_MAX_LIMBS_def)
    with True mem_block_to_mpi_ok [of zw Z can_alloc "(RSA_MEM_Z_BLOCK_BASE, 0)" hw1]
    have "Z' = Z\<lparr>mpi_p := limbs_of_nat zw (x * y) @ replicate (length (mpi_p Z) - zw) 0\<rparr>"
      by (simp add: Z'_def rd)
    then show ?thesis using True by (simp add: limbs_val_append vz)
  next
    case False
    with mem_block_to_mpi_fail [of zw Z can_alloc "(RSA_MEM_Z_BLOCK_BASE, 0)" hw1]
    have "Z' = Z" by (simp add: Z'_def)
    then show ?thesis using False by simp
  qed
  have path: "mbedtls_mpi_mul_mpi can_alloc hw Z X Y = (None, Z', esp_mpi_release_hardware hw1)"
    unfolding mul_mpi_failover_path [OF bx "by" big small] zw [symmetric] run Z'_def ..
  show ?thesis
    apply (rule exI [of _ Z'], rule exI [of _ "esp_mpi_release_hardware hw1"])
    using path regs bM bR acq Zs rd vz
    by (simp add: esp_mpi_release_hardware_def x_def y_def)
qed

lemma mpi_words_snoc:
  "w \<noteq> 0 \<Longrightarrow> mpi_words \<lparr>mpi_s = s, mpi_p = xs @ [w]\<rparr> = Suc (length xs)"
  by (simp add: mpi_words_def)

lemma bitlen_snoc:
  "w \<noteq> 0 \<Longrightarrow> mbedtls_mpi_bitlen \<lparr>mpi_s = s, mpi_p = xs @ [w]\<rparr>
     = length xs * 32 + nat_bitlen (unat w)"
  by (simp add: mbedtls_mpi_bitlen_def mpi_words_snoc del: nat_bitlen.simps)

lemma limbs_val_zeros_snoc:
  "limbs_val (replicate k 0 @ [w]) = 2 ^ (32 * k) * unat w"
  by (simp add: limbs_val_append)

lemma nat_bitlen_2 [simp]: "nat_bitlen 2 = 2"
  by (simp add: nat_bitlen.simps [of 2] del: nat_bitlen.simps)

lemma nat_bitlen_3 [simp]: "nat_bitlen 3 = 2"
  by (simp add: nat_bitlen.simps [of 3] del: nat_bitlen.simps)


lemma wide_operand:
  "mpi_words \<lparr>mpi_s = s, mpi_p = replicate 64 0 @ [1]\<rparr> = 65"
  "mbedtls_mpi_bitlen \<lparr>mpi_s = s, mpi_p = replicate 64 0 @ [1]\<rparr> = 2049"
  "limbs_val (replicate 64 0 @ [1]) = 2 ^ 2048"
  using mpi_words_snoc [of 1 s "replicate 64 0"] bitlen_snoc [of 1 s "replicate 64 0"]
    limbs_val_zeros_snoc [of 64 1]
  by (simp_all del: replicate.simps)

lemma small_operands:
  "mpi_words \<lparr>mpi_s = s, mpi_p = [2]\<rparr> = 1"
  "mbedtls_mpi_bitlen \<lparr>mpi_s = s, mpi_p = [2]\<rparr> = 2"
  "mpi_words \<lparr>mpi_s = s, mpi_p = [3]\<rparr> = 1"
  "mbedtls_mpi_bitlen \<lparr>mpi_s = s, mpi_p = [3]\<rparr> = 2"
  "mpi_words \<lparr>mpi_s = s, mpi_p = [0, 1]\<rparr> = 2"
  "mbedtls_mpi_bitlen \<lparr>mpi_s = s, mpi_p = [0, 1]\<rparr> = 33"
  "limbs_val [0, 1] = 2 ^ 32"
  by (simp_all add: mpi_words_def mbedtls_mpi_bitlen_def del: nat_bitlen.simps)






text \<open>
  Claim C1.  The failover path never writes the sign of \<open>Z\<close>.  For \<open>X = - (2 ^ 2048)\<close>,
  \<open>Y = 2\<close> and a freshly initialised \<open>Z\<close> the call returns 0 with \<open>Z = 2 ^ 2049\<close>, while
  \<open>X * Y = - (2 ^ 2049)\<close>.
\<close>

theorem mbedtls_mpi_mul_mpi_failover_sign:
  "\<exists>Z' hw'. mbedtls_mpi_mul_mpi (\<lambda>k. True) rsa_hw_init mbedtls_mpi_init
        \<lparr>mpi_s = - 1, mpi_p = replicate 64 0 @ [1]\<rparr> \<lparr>mpi_s = 1, mpi_p = [2]\<rparr> = (None, Z', hw')
      \<and> mpi_val Z' = 2 ^ 2049
      \<and> mpi_val \<lparr>mpi_s = - 1, mpi_p = replicate 64 0 @ [1]\<rparr> * mpi_val \<lparr>mpi_s = 1, mpi_p = [2]\<rparr>
           = - (2 ^ 2049)"
proof -
  let ?X = "\<lparr>mpi_s = - 1, mpi_p = replicate 64 0 @ [1]\<rparr>"
  let ?Y = "\<lparr>mpi_s = 1, mpi_p = [2]\<rparr>"
  have h1: "2 \<le> mbedtls_mpi_bitlen ?X" by (simp add: wide_operand del: replicate.simps)
  have h2: "2 \<le> mbedtls_mpi_bitlen ?Y" by (simp add: small_operands)
  have h3: "2048 < max (mpi_words ?X) (mpi_words ?Y) * 32"
    by (simp add: wide_operand small_operands del: replicate.simps)
  have h4: "(mpi_words ?X + mpi_words ?Y) * 32 \<le> 4096"
    by (simp add: wide_operand small_operands del: replicate.simps)
  have w: "66 = mpi_words ?X + mpi_words ?Y" by (simp add: wide_operand small_operands del: replicate.simps)
  have a: "(66::nat) \<le> length (mpi_p mbedtls_mpi_init) \<or> (\<lambda>k. True) (66::nat)" by simp
  have p: "(2::nat) ^ 2048 * 2 = 2 ^ 2049"
    using power_Suc [of "2::nat" 2048] by (simp only: mult.commute) simp
  have v: "limbs_val (mpi_p ?X) * limbs_val (mpi_p ?Y) = 2 ^ 2049"
    using p by (simp add: wide_operand del: replicate.simps)
  from mul_mpi_failover_run [OF h1 h2 h3 h4 w, of "\<lambda>k. True" rsa_hw_init mbedtls_mpi_init]
  obtain Z' hw' where r: "mbedtls_mpi_mul_mpi (\<lambda>k. True) rsa_hw_init mbedtls_mpi_init ?X ?Y
         = (None, Z', hw')"
      "mpi_s Z' = mpi_s mbedtls_mpi_init"
      "if (66::nat) \<le> length (mpi_p mbedtls_mpi_init) \<or> (\<lambda>k. True) (66::nat)
       then limbs_val (mpi_p Z') = 2 ^ 2049 else Z' = mbedtls_mpi_init"
    unfolding v by blast
  from r(3) a have z: "limbs_val (mpi_p Z') = 2 ^ 2049" by (simp only: if_True)
  have s: "mpi_s Z' = 1" using r(2) by (simp add: mbedtls_mpi_init_def)
  have zv: "mpi_val Z' = 2 ^ 2049" by (simp add: mpi_val_def z s)
  have "int (limbs_val (mpi_p ?X) * limbs_val (mpi_p ?Y)) = 2 ^ 2049" by (simp only: v) simp
  then have xy: "mpi_val ?X * mpi_val ?Y = - (2 ^ 2049)"
    by (simp add: mpi_val_def del: replicate.simps)
  from r(1) zv xy show ?thesis by blast
qed

section \<open>The recursive multiplication\<close>

lemma mul_mpi_overlong_path:
  assumes "2 \<le> mbedtls_mpi_bitlen X" "2 \<le> mbedtls_mpi_bitlen Y"
    and "4096 < (mpi_words X + mpi_words Y) * 32"
  shows "mbedtls_mpi_mul_mpi can_alloc hw Z X Y
           = (if mpi_words Y > mpi_words X
              then mpi_mult_mpi_overlong can_alloc hw
                     (snd (mbedtls_mpi_grow can_alloc Z (mpi_words X + mpi_words Y)))
                     X Y (mpi_words Y) (mpi_words X + mpi_words Y)
              else mpi_mult_mpi_overlong can_alloc hw
                     (snd (mbedtls_mpi_grow can_alloc Z (mpi_words X + mpi_words Y)))
                     Y X (mpi_words X) (mpi_words X + mpi_words Y))"
proof -
  have "2048 < max (mpi_words X) (mpi_words Y) * 32" using assms(3) by (simp add: max_def)
  with assms show ?thesis
    by (subst mbedtls_mpi_mul_mpi.simps) (simp add: Let_def bitlen_words)
qed

lemma mpi_words_take: "mpi_words \<lparr>mpi_s = s, mpi_p = take n p\<rparr> \<le> n"
  using mpi_words_le_length [of "\<lparr>mpi_s = s, mpi_p = take n p\<rparr>"] by simp

lemma mpi_words_zeros: "mpi_words \<lparr>mpi_s = s, mpi_p = replicate n 0\<rparr> = 0"
proof -
  have "mpi_words_loop (replicate n 0) k = 0" if "k \<le> n" for k
    using that by (induction k) simp_all
  then show ?thesis by (simp add: mpi_words_def)
qed


text \<open>
  Claim C9.  The definition of \<^verbatim>\<open>mbedtls_mpi_mul_mpi\<close> and \<^verbatim>\<open>mpi_mult_mpi_overlong\<close> above
  comes with its termination proof, for every input: the sum of the significant word
  counts of the two operands decreases at each call of the multiplication from the
  decomposition.  The theorem makes the steps explicit for a call on the recursive path
  (both operands of at least two bits, more than 4096 bits together).  The call is
  \<^verbatim>\<open>mpi_mult_mpi_overlong\<close> on the shorter operand \<open>S\<close> and the longer operand \<open>L\<close> with
  \<open>w\<close> the word count of \<open>L\<close>, at least 65; that function calls the multiplication on \<open>S\<close>
  and the low \<open>w div 2\<close> words of \<open>L\<close>, then on \<open>S\<close> and the remaining \<open>w - w div 2\<close> words,
  shifts and adds; each view has strictly fewer than \<open>w\<close> words, and each of the two calls
  has a strictly smaller sum of word counts than the call it comes from.
\<close>

theorem overlong_narrows:
  assumes bx: "2 \<le> mbedtls_mpi_bitlen X" and "by": "2 \<le> mbedtls_mpi_bitlen Y"
    and big: "4096 < (mpi_words X + mpi_words Y) * 32"
    and SL: "(S, L) = (if mpi_words Y > mpi_words X then (X, Y) else (Y, X))"
    and w: "w = mpi_words L"
    and Lp: "Lp = \<lparr>mpi_s = mpi_s L, mpi_p = take (w div 2) (mpi_p L)\<rparr>"
    and Lpp: "Lpp = \<lparr>mpi_s = mpi_s L, mpi_p = take (w - w div 2) (drop (w div 2) (mpi_p L))\<rparr>"
  shows "mbedtls_mpi_mul_mpi can_alloc hw Z X Y
           = mpi_mult_mpi_overlong can_alloc hw
               (snd (mbedtls_mpi_grow can_alloc Z (mpi_words X + mpi_words Y)))
               S L w (mpi_words X + mpi_words Y)
       \<and> mpi_mult_mpi_overlong can_alloc hw Z1 S L w zw
           = (case mbedtls_mpi_mul_mpi can_alloc hw mbedtls_mpi_init S Lp of
                (Some e, Ztemp, hw1) \<Rightarrow> (Some e, Z1, hw1)
              | (None, Ztemp, hw1) \<Rightarrow>
                  (case mbedtls_mpi_mul_mpi can_alloc hw1 Z1 S Lpp of
                     (Some e, Z2, hw2) \<Rightarrow> (Some e, Z2, hw2)
                   | (None, Z2, hw2) \<Rightarrow>
                       (case mbedtls_mpi_shift_l can_alloc Z2 (w div 2 * 32) of
                          (Some e, Z3) \<Rightarrow> (Some e, Z3, hw2)
                        | (None, Z3) \<Rightarrow>
                            (case mbedtls_mpi_add_mpi can_alloc Z3 Z3 Ztemp of
                               (ret, Z4) \<Rightarrow> (ret, Z4, hw2)))))
       \<and> mpi_words S \<le> w \<and> 65 \<le> w
       \<and> mpi_words Lp \<le> w div 2 \<and> w div 2 < w
       \<and> mpi_words Lpp \<le> w - w div 2 \<and> w - w div 2 < w
       \<and> mpi_words S + mpi_words Lp < mpi_words X + mpi_words Y
       \<and> mpi_words S + mpi_words Lpp < mpi_words X + mpi_words Y"
proof -
  have S: "S = (if mpi_words Y > mpi_words X then X else Y)"
    and L: "L = (if mpi_words Y > mpi_words X then Y else X)"
    using SL by (simp_all split: if_splits)
  have sw: "mpi_words S \<le> w" and sum: "mpi_words S + w = mpi_words X + mpi_words Y"
    by (simp_all add: S L w)
  have w65: "65 \<le> w" using big sw sum by arith
  have p1: "mpi_mult_mpi_overlong can_alloc hw Z1 S L w zw
           = (case mbedtls_mpi_mul_mpi can_alloc hw mbedtls_mpi_init S Lp of
                (Some e, Ztemp, hw1) \<Rightarrow> (Some e, Z1, hw1)
              | (None, Ztemp, hw1) \<Rightarrow>
                  (case mbedtls_mpi_mul_mpi can_alloc hw1 Z1 S Lpp of
                     (Some e, Z2, hw2) \<Rightarrow> (Some e, Z2, hw2)
                   | (None, Z2, hw2) \<Rightarrow>
                       (case mbedtls_mpi_shift_l can_alloc Z2 (w div 2 * 32) of
                          (Some e, Z3) \<Rightarrow> (Some e, Z3, hw2)
                        | (None, Z3) \<Rightarrow>
                            (case mbedtls_mpi_add_mpi can_alloc Z3 Z3 Ztemp of
                               (ret, Z4) \<Rightarrow> (ret, Z4, hw2)))))"
    by (subst mpi_mult_mpi_overlong.simps) (simp only: Let_def Lp Lpp)
  have p0: "mbedtls_mpi_mul_mpi can_alloc hw Z X Y
           = mpi_mult_mpi_overlong can_alloc hw
               (snd (mbedtls_mpi_grow can_alloc Z (mpi_words X + mpi_words Y)))
               S L w (mpi_words X + mpi_words Y)"
    unfolding mul_mpi_overlong_path [OF bx "by" big] by (simp add: S L w)
  have lp: "mpi_words Lp \<le> w div 2" unfolding Lp by (rule mpi_words_take)
  have lpp: "mpi_words Lpp \<le> w - w div 2" unfolding Lpp by (rule mpi_words_take)
  have h1: "w div 2 < w" and h2: "w - w div 2 < w" using w65 by arith+
  have d1: "mpi_words S + mpi_words Lp < mpi_words X + mpi_words Y"
    using lp h1 sum by arith
  have d2: "mpi_words S + mpi_words Lpp < mpi_words X + mpi_words Y"
    using lpp h2 sum by arith
  from p0 p1 sw w65 lp h1 lpp h2 d1 d2 show ?thesis by blast
qed

theorem overlong_narrows_witness:
  "mbedtls_mpi_mul_mpi (\<lambda>k. True) rsa_hw_init mbedtls_mpi_init
       \<lparr>mpi_s = 1, mpi_p = replicate 64 0 @ [1]\<rparr> \<lparr>mpi_s = 1, mpi_p = replicate 64 0 @ [1]\<rparr>
     = mpi_mult_mpi_overlong (\<lambda>k. True) rsa_hw_init
         (snd (mbedtls_mpi_grow (\<lambda>k. True) mbedtls_mpi_init 130))
         \<lparr>mpi_s = 1, mpi_p = replicate 64 0 @ [1]\<rparr> \<lparr>mpi_s = 1, mpi_p = replicate 64 0 @ [1]\<rparr>
         65 130
   \<and> mpi_words \<lparr>mpi_s = 1, mpi_p = take (65 div 2) (replicate 64 0 @ [1])\<rparr> \<le> 65 div 2
   \<and> mpi_words \<lparr>mpi_s = 1, mpi_p = take (65 - 65 div 2) (drop (65 div 2) (replicate 64 0 @ [1]))\<rparr>
        \<le> 65 - 65 div 2
   \<and> (65::nat) div 2 < 65 \<and> (65::nat) - 65 div 2 < 65"
proof -
  let ?X = "\<lparr>mpi_s = 1, mpi_p = replicate 64 0 @ [1]\<rparr>"
  have h1: "2 \<le> mbedtls_mpi_bitlen ?X" by (simp add: wide_operand del: replicate.simps)
  have h3: "4096 < (mpi_words ?X + mpi_words ?X) * 32"
    by (simp add: wide_operand del: replicate.simps)
  have SL: "(?X, ?X) = (if mpi_words ?X > mpi_words ?X then (?X, ?X) else (?X, ?X))" by simp
  have w: "65 = mpi_words ?X" by (simp add: wide_operand del: replicate.simps)
  have Lp: "\<lparr>mpi_s = 1, mpi_p = take (65 div 2) (replicate 64 0 @ [1])\<rparr>
      = \<lparr>mpi_s = mpi_s ?X, mpi_p = take (65 div 2) (mpi_p ?X)\<rparr>" by simp
  have Lpp: "\<lparr>mpi_s = 1, mpi_p = take (65 - 65 div 2) (drop (65 div 2) (replicate 64 0 @ [1]))\<rparr>
      = \<lparr>mpi_s = mpi_s ?X, mpi_p = take (65 - 65 div 2) (drop (65 div 2) (mpi_p ?X))\<rparr>" by simp
  have s: "mpi_words ?X + mpi_words ?X = 130" by (simp add: wide_operand del: replicate.simps)
  note t = overlong_narrows [OF h1 h1 h3 SL w Lp Lpp, of "\<lambda>k. True" rsa_hw_init mbedtls_mpi_init,
      unfolded s]
  from t show ?thesis by blast
qed

text \<open>
  The recursion does not always end in a hardware operation.  For \<open>X = Y = 2 ^ 2048\<close> the
  call is on the recursive path, and the first call of the decomposition, on the low 32
  words of the operand, which are all zero, returns at the zero fast exit: its result is 0
  and the accelerator is left as it was, never acquired.
\<close>

theorem overlong_zero_half:
  "mbedtls_mpi_mul_mpi (\<lambda>k. True) rsa_hw_init mbedtls_mpi_init
       \<lparr>mpi_s = 1, mpi_p = replicate 64 0 @ [1]\<rparr> \<lparr>mpi_s = 1, mpi_p = replicate 64 0 @ [1]\<rparr>
     = mpi_mult_mpi_overlong (\<lambda>k. True) rsa_hw_init
         (snd (mbedtls_mpi_grow (\<lambda>k. True) mbedtls_mpi_init 130))
         \<lparr>mpi_s = 1, mpi_p = replicate 64 0 @ [1]\<rparr> \<lparr>mpi_s = 1, mpi_p = replicate 64 0 @ [1]\<rparr>
         65 130
   \<and> mbedtls_mpi_mul_mpi (\<lambda>k. True) rsa_hw_init mbedtls_mpi_init
       \<lparr>mpi_s = 1, mpi_p = replicate 64 0 @ [1]\<rparr>
       \<lparr>mpi_s = 1, mpi_p = take (65 div 2) (replicate 64 0 @ [1])\<rparr>
     = (None, \<lparr>mpi_s = 1, mpi_p = [0]\<rparr>, rsa_hw_init)
   \<and> rsa_acquired rsa_hw_init = 0"
proof (intro conjI)
  let ?X = "\<lparr>mpi_s = 1, mpi_p = replicate 64 0 @ [1]\<rparr>"
  have h1: "2 \<le> mbedtls_mpi_bitlen ?X" by (simp add: wide_operand del: replicate.simps)
  have h3: "4096 < (mpi_words ?X + mpi_words ?X) * 32"
    by (simp add: wide_operand del: replicate.simps)
  show "mbedtls_mpi_mul_mpi (\<lambda>k. True) rsa_hw_init mbedtls_mpi_init ?X ?X
     = mpi_mult_mpi_overlong (\<lambda>k. True) rsa_hw_init
         (snd (mbedtls_mpi_grow (\<lambda>k. True) mbedtls_mpi_init 130)) ?X ?X 65 130"
    unfolding mul_mpi_overlong_path [OF h1 h1 h3]
    by (simp add: wide_operand del: replicate.simps)
  have v: "take (65 div 2) (replicate 64 0 @ [1::mbedtls_mpi_uint]) = replicate 32 0"
    by (simp del: replicate.simps)
  have b: "mbedtls_mpi_bitlen \<lparr>mpi_s = 1, mpi_p = replicate 32 0\<rparr> = 0"
    by (simp add: mbedtls_mpi_bitlen_def mpi_words_zeros del: replicate.simps)
  have l: "mbedtls_mpi_lset (\<lambda>k. True) mbedtls_mpi_init 0 = (None, \<lparr>mpi_s = 1, mpi_p = [0]\<rparr>)"
    by (simp add: mbedtls_mpi_lset_def mbedtls_mpi_grow_def mbedtls_mpi_init_def
        MBEDTLS_MPI_MAX_LIMBS_def)
  show "mbedtls_mpi_mul_mpi (\<lambda>k. True) rsa_hw_init mbedtls_mpi_init ?X
       \<lparr>mpi_s = 1, mpi_p = take (65 div 2) (replicate 64 0 @ [1])\<rparr>
     = (None, \<lparr>mpi_s = 1, mpi_p = [0]\<rparr>, rsa_hw_init)"
    unfolding v by (subst mbedtls_mpi_mul_mpi.simps) (simp add: Let_def b l del: replicate.simps)
  show "rsa_acquired rsa_hw_init = 0" by (simp add: rsa_hw_init_def)
qed

end
